theory Spec2Isabelle
  imports Main
begin

section \<open>Data model (parser.py, lines 7 to 22)\<close>

text \<open>
  The two dataclasses of \<^verbatim>\<open>parser.py\<close>. A Python list holds references to objects, and
  \<^verbatim>\<open>assign_levels\<close> writes \<^verbatim>\<open>gate.level\<close> through the references of a second list
  (\<^verbatim>\<open>remaining_gates\<close>) while the netlist keeps pointing at the same objects. The
  Gate objects therefore live in an explicit store: a \<open>ref\<close> is the identity of a Gate
  object, a \<open>heap\<close> gives the current fields of every object, and
  \<^verbatim>\<open>Netlist.gates\<close> is a list of references.
\<close>

type_synonym ref = nat

record gate =
  gtype :: string
  name :: "string option"
  "output" :: string
  inputs :: "string list"
  value_inp :: "int option list"
  value_out :: "int option"
  level :: "int option"

type_synonym heap = "ref \<Rightarrow> gate"

text \<open>
  The constructor call \<^verbatim>\<open>Gate(gtype, name, output, inputs)\<close> of lines 67 and 74: the
  other three fields take the defaults of the dataclass.
\<close>

definition Gate :: "string \<Rightarrow> string option \<Rightarrow> string \<Rightarrow> string list \<Rightarrow> gate" where
  "Gate gtype' name' output' inputs' =
     \<lparr>gtype = gtype', name = name', output = output', gate.inputs = inputs',
      value_inp = [], value_out = None, level = None\<rparr>"

record netlist =
  inputs :: "string list"
  outputs :: "string list"
  wires :: "string list"
  gates :: "ref list"

text \<open>
  The exceptions the two modules can raise, one constructor per raise site:
  \<^item> \<open>ValueError_cannot_resolve\<close>: \<^verbatim>\<open>assign_levels\<close>, line 103;
  \<^item> \<open>ValueError_missing_input\<close>: \<^verbatim>\<open>evaluate_gate\<close>, line 7 (carries \<^verbatim>\<open>gate.name\<close>);
  \<^item> \<open>NotImplementedError\<close>: \<^verbatim>\<open>evaluate_gate\<close>, line 34 (carries \<^verbatim>\<open>gate.gtype\<close>);
  \<^item> \<open>IndexError\<close>: \<^verbatim>\<open>inputs[0]\<close> on an empty list, line 31;
  \<^item> \<open>ValueError_max_empty\<close>: \<^verbatim>\<open>max()\<close> of no keys, \<^verbatim>\<open>simulate\<close> line 45;
  \<^item> \<open>TypeError\<close>: a level \<^verbatim>\<open>None\<close> compared or added to an integer, lines 45 and 47.
\<close>

datatype error =
    ValueError_cannot_resolve
  | ValueError_missing_input "string option"
  | NotImplementedError string
  | IndexError
  | ValueError_max_empty
  | TypeError

section \<open>The leveler (parser.py, lines 91 to 107)\<close>

text \<open>
  The inner \<^verbatim>\<open>for gate in remaining_gates\<close> loop of one round (lines 98 to 101): a gate
  all of whose inputs are known gets the round's level, written into the object, and is
  appended to \<^verbatim>\<open>current_level\<close>.
\<close>

fun level_round :: "ref list \<Rightarrow> string set \<Rightarrow> int \<Rightarrow> heap \<Rightarrow> ref list \<Rightarrow> heap \<times> ref list" where
  "level_round [] known_signals level_num h current_level = (h, current_level)"
| "level_round (gate # rest) known_signals level_num h current_level =
     (if list_all (\<lambda>inp. inp \<in> known_signals) (gate.inputs (h gate))
      then level_round rest known_signals level_num
             (h(gate := (h gate)\<lparr>level := Some level_num\<rparr>)) (current_level @ [gate])
      else level_round rest known_signals level_num h current_level)"

text \<open>
  The test of line 99, named for the proofs: every input of the gate is a known signal.
\<close>

definition ready :: "string set \<Rightarrow> heap \<Rightarrow> ref \<Rightarrow> bool" where
  "ready known h g = list_all (\<lambda>inp. inp \<in> known) (gate.inputs (h g))"

lemma ready_upd [simp]: "ready known (h(r := (h r)\<lparr>level := l\<rparr>)) g = ready known h g"
  by (simp add: ready_def)

lemma level_round_current:
  "snd (level_round rs known n h cur) = cur @ filter (ready known h) rs"
proof (induction rs arbitrary: h cur)
  case Nil
  show ?case by simp
next
  case (Cons r rs)
  show ?case
  proof (cases "ready known h r")
    case True
    then have "level_round (r # rs) known n h cur =
        level_round rs known n (h(r := (h r)\<lparr>level := Some n\<rparr>)) (cur @ [r])"
      by (simp add: ready_def)
    then show ?thesis
      using True by (simp add: Cons.IH del: level_round.simps fun_upd_apply cong: filter_cong)
  next
    case False
    then have "level_round (r # rs) known n h cur = level_round rs known n h cur"
      by (simp add: ready_def)
    then show ?thesis
      using False by (simp add: Cons.IH del: level_round.simps)
  qed
qed

lemma level_round_heap:
  "fst (level_round rs known n h cur) g =
     (if g \<in> set rs \<and> ready known h g then (h g)\<lparr>level := Some n\<rparr> else h g)"
proof (induction rs arbitrary: h cur)
  case Nil
  show ?case by simp
next
  case (Cons r rs)
  show ?case
  proof (cases "ready known h r")
    case True
    then have "level_round (r # rs) known n h cur =
        level_round rs known n (h(r := (h r)\<lparr>level := Some n\<rparr>)) (cur @ [r])"
      by (simp add: ready_def)
    then have "fst (level_round (r # rs) known n h cur) g =
        (if g \<in> set rs \<and> ready known h g
         then ((h(r := (h r)\<lparr>level := Some n\<rparr>)) g)\<lparr>level := Some n\<rparr>
         else (h(r := (h r)\<lparr>level := Some n\<rparr>)) g)"
      by (simp add: Cons.IH del: level_round.simps fun_upd_apply)
    then show ?thesis
      using True by (cases "g = r") simp_all
  next
    case False
    then have "level_round (r # rs) known n h cur = level_round rs known n h cur"
      by (simp add: ready_def)
    then have "fst (level_round (r # rs) known n h cur) g =
        (if g \<in> set rs \<and> ready known h g then (h g)\<lparr>level := Some n\<rparr> else h g)"
      by (simp add: Cons.IH del: level_round.simps)
    then show ?thesis
      using False by (cases "g = r") simp_all
  qed
qed

lemma level_round_progress:
  assumes "level_round remaining known n h [] = (h', current_level)"
    and "current_level \<noteq> []"
  shows "length (filter (\<lambda>g. level (h' g) = None) remaining) < length remaining"
proof -
  from assms(1) have cur: "current_level = filter (ready known h) remaining"
    using level_round_current [of remaining known n h "[]"] by simp
  from assms(1) have h': "h' g =
      (if g \<in> set remaining \<and> ready known h g then (h g)\<lparr>level := Some n\<rparr> else h g)" for g
    using level_round_heap [of remaining known n h "[]" g] by simp
  from assms(2) cur obtain g where g: "g \<in> set remaining" "ready known h g"
    by (auto simp: filter_empty_conv)
  then have "level (h' g) \<noteq> None"
    by (simp add: h')
  with g(1) show ?thesis
    by (simp add: length_filter_less)
qed


text \<open>
  The \<^verbatim>\<open>while remaining_gates\<close> loop (lines 96 to 107). A round that levels no gate
  raises; otherwise the outputs of the gates just leveled become known, the gates whose
  level is no longer \<^verbatim>\<open>None\<close> leave \<^verbatim>\<open>remaining_gates\<close>, and the level number
  grows by one. The result is the store after the in-place assignments; an error carries
  no store, and \<open>assign_loop_store\<close> below gives the store a run leaves behind.
\<close>

function assign_loop :: "ref list \<Rightarrow> string set \<Rightarrow> int \<Rightarrow> heap \<Rightarrow> error + heap" where
  "assign_loop remaining_gates known_signals level_num h =
     (if remaining_gates = [] then Inr h
      else case level_round remaining_gates known_signals level_num h [] of
        (h', current_level) \<Rightarrow>
          if current_level = [] then Inl ValueError_cannot_resolve
          else assign_loop (filter (\<lambda>g. level (h' g) = None) remaining_gates)
                 (known_signals \<union> (\<lambda>gate. output (h' gate)) ` set current_level)
                 (level_num + 1) h')"
  by pat_completeness auto
termination
proof (relation "measure (\<lambda>(remaining_gates, known_signals, level_num, h). length remaining_gates)")
  show "wf (measure (\<lambda>(remaining_gates, known_signals, level_num, h). length remaining_gates))"
    by simp
next
  fix remaining_gates :: "ref list" and known_signals :: "string set" and level_num :: int
    and h h' :: heap and current_level :: "ref list"
  assume "(h', current_level) = level_round remaining_gates known_signals level_num h []"
    and "current_level \<noteq> []"
  then have "length (filter (\<lambda>g. level (h' g) = None) remaining_gates) < length remaining_gates"
    using level_round_progress [of remaining_gates known_signals level_num h h' current_level]
    by simp
  then show "((filter (\<lambda>g. level (h' g) = None) remaining_gates,
       known_signals \<union> (\<lambda>gate. output (h' gate)) ` set current_level, level_num + 1, h'),
      remaining_gates, known_signals, level_num, h)
     \<in> measure (\<lambda>(remaining_gates, known_signals, level_num, h). length remaining_gates)"
    by simp
qed

declare assign_loop.simps [simp del]

definition assign_levels :: "netlist \<Rightarrow> heap \<Rightarrow> error + heap" where
  "assign_levels netlist h = assign_loop (gates netlist) (set (netlist.inputs netlist)) 1 h"

text \<open>
  The store when the loop is left, by its end or by the raise of line 103: the same
  rounds, and the levels written in the rounds before a raise stay written.
  \<open>leveled\<close> is this store for a call of \<^verbatim>\<open>assign_levels\<close>.
\<close>

function assign_loop_store :: "ref list \<Rightarrow> string set \<Rightarrow> int \<Rightarrow> heap \<Rightarrow> heap" where
  "assign_loop_store remaining_gates known_signals level_num h =
     (if remaining_gates = [] then h
      else case level_round remaining_gates known_signals level_num h [] of
        (h', current_level) \<Rightarrow>
          if current_level = [] then h'
          else assign_loop_store (filter (\<lambda>g. level (h' g) = None) remaining_gates)
                 (known_signals \<union> (\<lambda>gate. output (h' gate)) ` set current_level)
                 (level_num + 1) h')"
  by pat_completeness auto
termination
proof (relation "measure (\<lambda>(remaining_gates, known_signals, level_num, h). length remaining_gates)")
  show "wf (measure (\<lambda>(remaining_gates, known_signals, level_num, h). length remaining_gates))"
    by simp
next
  fix remaining_gates :: "ref list" and known_signals :: "string set" and level_num :: int
    and h h' :: heap and current_level :: "ref list"
  assume "(h', current_level) = level_round remaining_gates known_signals level_num h []"
    and "current_level \<noteq> []"
  then have "length (filter (\<lambda>g. level (h' g) = None) remaining_gates) < length remaining_gates"
    using level_round_progress [of remaining_gates known_signals level_num h h' current_level]
    by simp
  then show "((filter (\<lambda>g. level (h' g) = None) remaining_gates,
       known_signals \<union> (\<lambda>gate. output (h' gate)) ` set current_level, level_num + 1, h'),
      remaining_gates, known_signals, level_num, h)
     \<in> measure (\<lambda>(remaining_gates, known_signals, level_num, h). length remaining_gates)"
    by simp
qed

declare assign_loop_store.simps [simp del]

definition leveled :: "netlist \<Rightarrow> heap \<Rightarrow> heap" where
  "leveled netlist h = assign_loop_store (gates netlist) (set (netlist.inputs netlist)) 1 h"

section \<open>The evaluator and the simulator (simulation.py)\<close>

text \<open>
  \<^verbatim>\<open>evaluate_gate\<close> (lines 4 to 34). \<^verbatim>\<open>signal_values\<close> maps a signal name to a Python
  integer; \<^verbatim>\<open>all\<close> and \<^verbatim>\<open>any\<close> test the integers for being nonzero.
\<close>

definition evaluate_gate :: "gate \<Rightarrow> (string \<rightharpoonup> int) \<Rightarrow> error + int" where
  "evaluate_gate gate signal_values =
     (let ins = map signal_values (gate.inputs gate) in
      if None \<in> set ins then Inl (ValueError_missing_input (name gate))
      else let vals = map the ins in
        if gtype gate = ''nand'' then Inr (if list_all (\<lambda>v. v \<noteq> 0) vals then 0 else 1)
        else if gtype gate = ''and'' then Inr (if list_all (\<lambda>v. v \<noteq> 0) vals then 1 else 0)
        else if gtype gate = ''or'' then Inr (if list_ex (\<lambda>v. v \<noteq> 0) vals then 1 else 0)
        else if gtype gate = ''nor'' then Inr (if list_ex (\<lambda>v. v \<noteq> 0) vals then 0 else 1)
        else if gtype gate = ''xor'' then Inr (sum_list vals mod 2)
        else if gtype gate = ''not'' then
          (case vals of [] \<Rightarrow> Inl IndexError | v # _ \<Rightarrow> Inr (if v \<noteq> 0 then 0 else 1))
        else Inl (NotImplementedError (gtype gate)))"

text \<open>
  \<^verbatim>\<open>gates_by_level.setdefault(gate.level, []).append(gate)\<close> (line 43) on a dictionary
  kept as an association list in insertion order.
\<close>

fun setdefault_append :: "'k \<Rightarrow> 'v \<Rightarrow> ('k \<times> 'v list) list \<Rightarrow> ('k \<times> 'v list) list" where
  "setdefault_append k v [] = [(k, [v])]"
| "setdefault_append k v ((k', vs) # d) =
     (if k = k' then (k', vs @ [v]) # d else (k', vs) # setdefault_append k v d)"

fun group_by_level :: "heap \<Rightarrow> ref list \<Rightarrow> (int option \<times> ref list) list \<Rightarrow> (int option \<times> ref list) list" where
  "group_by_level h [] gates_by_level = gates_by_level"
| "group_by_level h (gate # rest) gates_by_level =
     group_by_level h rest (setdefault_append (level (h gate)) gate gates_by_level)"

text \<open>
  \<^verbatim>\<open>max(gates_by_level.keys())\<close> (line 45): no key raises \<^verbatim>\<open>ValueError\<close>; the keys are
  compared with \<^verbatim>\<open>>\<close>, which raises \<^verbatim>\<open>TypeError\<close> as soon as one of the two is
  \<^verbatim>\<open>None\<close>; a single key is returned without any comparison.
\<close>

fun max_from :: "int option \<Rightarrow> int option list \<Rightarrow> error + int option" where
  "max_from m [] = Inr m"
| "max_from m (k # ks) =
     (case (k, m) of
        (Some a, Some b) \<Rightarrow> max_from (if a > b then k else m) ks
      | _ \<Rightarrow> Inl TypeError)"

fun py_max :: "int option list \<Rightarrow> error + int option" where
  "py_max [] = Inl ValueError_max_empty"
| "py_max (k # ks) = max_from k ks"

text \<open>The loop over the gates of one level (lines 48 to 50).\<close>

fun eval_level :: "heap \<Rightarrow> ref list \<Rightarrow> (string \<rightharpoonup> int) \<Rightarrow> error + (string \<rightharpoonup> int)" where
  "eval_level h [] signal_values = Inr signal_values"
| "eval_level h (gate # rest) signal_values =
     (case evaluate_gate (h gate) signal_values of
        Inl e \<Rightarrow> Inl e
      | Inr output_val \<Rightarrow> eval_level h rest (signal_values(output (h gate) \<mapsto> output_val)))"

text \<open>
  The loop \<^verbatim>\<open>for lvl in range(1, max_level + 1)\<close> (line 47);
  \<^verbatim>\<open>gates_by_level.get(lvl, [])\<close> is the list stored under the key, or the empty list.
\<close>

fun eval_levels :: "heap \<Rightarrow> (int option \<times> ref list) list \<Rightarrow> int list \<Rightarrow> (string \<rightharpoonup> int)
    \<Rightarrow> error + (string \<rightharpoonup> int)" where
  "eval_levels h gates_by_level [] signal_values = Inr signal_values"
| "eval_levels h gates_by_level (lvl # lvls) signal_values =
     (case eval_level h (case map_of gates_by_level (Some lvl) of None \<Rightarrow> [] | Some gs \<Rightarrow> gs)
             signal_values of
        Inl e \<Rightarrow> Inl e
      | Inr signal_values' \<Rightarrow> eval_levels h gates_by_level lvls signal_values')"

text \<open>
  The dictionary comprehension of line 53 builds the result key by key. A dictionary
  that is returned to the caller is kept as an association list with distinct keys in
  insertion order: storing under a key that is present replaces its value in place,
  storing under a new key appends.
\<close>

fun dict_set :: "'k \<Rightarrow> 'v \<Rightarrow> ('k \<times> 'v) list \<Rightarrow> ('k \<times> 'v) list" where
  "dict_set k v [] = [(k, v)]"
| "dict_set k v ((k', v') # d) = (if k = k' then (k, v) # d else (k', v') # dict_set k v d)"

text \<open>
  \<^verbatim>\<open>simulate\<close> (lines 36 to 53). The result maps every declared output to
  \<^verbatim>\<open>signal_values.get(out, None)\<close>: \<open>Some v\<close> is the integer \<open>v\<close>, \<open>None\<close> is Python's
  \<^verbatim>\<open>None\<close>.
\<close>

definition simulate :: "netlist \<Rightarrow> heap \<Rightarrow> (string \<rightharpoonup> int) \<Rightarrow> error + (string \<times> int option) list" where
  "simulate netlist h input_values =
     (let signal_values = input_values;
          gates_by_level = group_by_level h (gates netlist) []
      in case py_max (map fst gates_by_level) of
           Inl e \<Rightarrow> Inl e
         | Inr None \<Rightarrow> Inl TypeError
         | Inr (Some max_level) \<Rightarrow>
             (case eval_levels h gates_by_level [1..max_level] signal_values of
                Inl e \<Rightarrow> Inl e
              | Inr signal_values' \<Rightarrow>
                  Inr (fold (\<lambda>out d. dict_set out (signal_values' out) d) (outputs netlist) [])))"

section \<open>The parser (parser.py, lines 24 to 76)\<close>

text \<open>
  A text is a list of characters, each a code point below 256. The character classes are
  those of Python's \<^verbatim>\<open>re\<close> and \<^verbatim>\<open>str\<close> on this range: \<open>is_space\<close> is
  \<^verbatim>\<open>\s\<close> and what \<^verbatim>\<open>strip()\<close> removes, \<open>is_word\<close> is \<^verbatim>\<open>\w\<close> (used by \<^verbatim>\<open>\b\<close>),
  \<open>ident_start\<close> is \<^verbatim>\<open>[A-Za-z_]\<close>, \<open>ident_char\<close> is \<^verbatim>\<open>[A-Za-z0-9_]\<close>, and
  \<open>lower\<close> is \<^verbatim>\<open>str.lower()\<close> on one character.
\<close>

definition is_space :: "char \<Rightarrow> bool" where
  "is_space c =
     (let n = (of_char c :: nat)
      in (9 \<le> n \<and> n \<le> 13) \<or> (28 \<le> n \<and> n \<le> 32) \<or> n = 133 \<or> n = 160)"

definition ident_start :: "char \<Rightarrow> bool" where
  "ident_start c =
     (let n = (of_char c :: nat) in (65 \<le> n \<and> n \<le> 90) \<or> (97 \<le> n \<and> n \<le> 122) \<or> n = 95)"

definition ident_char :: "char \<Rightarrow> bool" where
  "ident_char c = (ident_start c \<or> (let n = (of_char c :: nat) in 48 \<le> n \<and> n \<le> 57))"

definition is_word :: "char \<Rightarrow> bool" where
  "is_word c =
     (ident_char c \<or>
      (let n = (of_char c :: nat)
       in n = 170 \<or> n = 178 \<or> n = 179 \<or> n = 181 \<or> n = 185 \<or> n = 186 \<or>
          (188 \<le> n \<and> n \<le> 190) \<or> (192 \<le> n \<and> n \<noteq> 215 \<and> n \<noteq> 247)))"

definition lower :: "char \<Rightarrow> char" where
  "lower c =
     (let n = (of_char c :: nat)
      in if (65 \<le> n \<and> n \<le> 90) \<or> (192 \<le> n \<and> n \<le> 222 \<and> n \<noteq> 215)
         then char_of (n + 32) else c)"

text \<open>
  \<^verbatim>\<open>remove_comments\<close> (lines 24 to 27). \<^verbatim>\<open>re.sub(r'//.*', '', text)\<close> deletes, from every
  \<^verbatim>\<open>//\<close> found scanning left to right, up to the next newline (which stays).
  \<^verbatim>\<open>re.sub(r'/\*.*?\*/', '', text, flags=re.S)\<close> deletes from a \<^verbatim>\<open>/*\<close> through the
  first \<^verbatim>\<open>*/\<close> that starts after it; a \<^verbatim>\<open>/*\<close> that is never closed stays.
\<close>

function strip_line_comments :: "string \<Rightarrow> string" where
  "strip_line_comments [] = []"
| "strip_line_comments [c] = [c]"
| "strip_line_comments (c # d # cs) =
     (if c = CHR ''/'' \<and> d = CHR ''/''
      then strip_line_comments (dropWhile (\<lambda>x. x \<noteq> CHR 0x0A) cs)
      else c # strip_line_comments (d # cs))"
  by pat_completeness auto
termination
proof (relation "measure length")
  show "wf (measure length)"
    by simp
next
  fix c d :: char and cs :: string
  have "length (dropWhile (\<lambda>x. x \<noteq> CHR 0x0A) cs) \<le> length cs"
    by (rule length_dropWhile_le)
  then show "(dropWhile (\<lambda>x. x \<noteq> CHR 0x0A) cs, c # d # cs) \<in> measure length"
    by simp
next
  fix c d :: char and cs :: string
  show "(d # cs, c # d # cs) \<in> measure length"
    by simp
qed

fun after_close :: "string \<Rightarrow> string option" where
  "after_close [] = None"
| "after_close [c] = None"
| "after_close (c # d # cs) =
     (if c = CHR ''*'' \<and> d = CHR ''/'' then Some cs else after_close (d # cs))"

lemma after_close_length: "after_close cs = Some rest \<Longrightarrow> length rest < length cs"
  by (induction cs arbitrary: rest rule: after_close.induct) (auto split: if_splits)

function strip_block_comments :: "string \<Rightarrow> string" where
  "strip_block_comments [] = []"
| "strip_block_comments [c] = [c]"
| "strip_block_comments (c # d # cs) =
     (if c = CHR ''/'' \<and> d = CHR ''*''
      then (case after_close cs of
              Some rest \<Rightarrow> strip_block_comments rest
            | None \<Rightarrow> c # strip_block_comments (d # cs))
      else c # strip_block_comments (d # cs))"
  by pat_completeness auto
termination
proof (relation "measure length")
  show "wf (measure length)"
    by simp
next
  fix c d :: char and cs rest :: string
  assume "after_close cs = Some rest"
  then have "length rest < length cs"
    by (rule after_close_length)
  then show "(rest, c # d # cs) \<in> measure length"
    by simp
next
  fix c d :: char and cs :: string
  show "(d # cs, c # d # cs) \<in> measure length"
    by simp
next
  fix c d :: char and cs :: string
  show "(d # cs, c # d # cs) \<in> measure length"
    by simp
qed

definition remove_comments :: "string \<Rightarrow> string" where
  "remove_comments text = strip_block_comments (strip_line_comments text)"

text \<open>\<^verbatim>\<open>re.findall(r"[A-Za-z_][A-Za-z0-9_]*", s)\<close> (line 30).\<close>

function find_identifiers :: "string \<Rightarrow> string list" where
  "find_identifiers [] = []"
| "find_identifiers (c # cs) =
     (if ident_start c
      then (c # takeWhile ident_char cs) # find_identifiers (dropWhile ident_char cs)
      else find_identifiers cs)"
  by pat_completeness auto
termination
proof (relation "measure length")
  show "wf (measure length)"
    by simp
next
  fix c :: char and cs :: string
  have "length (dropWhile ident_char cs) \<le> length cs"
    by (rule length_dropWhile_le)
  then show "(dropWhile ident_char cs, c # cs) \<in> measure length"
    by simp
next
  fix c :: char and cs :: string
  show "(cs, c # cs) \<in> measure length"
    by simp
qed

text \<open>\<^verbatim>\<open>unique_preserve\<close> (lines 32 to 39), with its two local variables.\<close>

fun unique_loop :: "'a set \<Rightarrow> 'a list \<Rightarrow> 'a list \<Rightarrow> 'a list" where
  "unique_loop seen out [] = out"
| "unique_loop seen out (x # seq) =
     (if x \<notin> seen then unique_loop (insert x seen) (out @ [x]) seq
      else unique_loop seen out seq)"

definition unique_preserve :: "'a list \<Rightarrow> 'a list" where
  "unique_preserve seq = unique_loop {} [] seq"

text \<open>\<^verbatim>\<open>text.split(';')\<close>, \<^verbatim>\<open>stmt.strip()\<close> and \<^verbatim>\<open>stmt.startswith(prefix)\<close>.\<close>

fun split_semicolon :: "string \<Rightarrow> string list" where
  "split_semicolon [] = [[]]"
| "split_semicolon (c # cs) =
     (if c = CHR '';'' then [] # split_semicolon cs
      else (case split_semicolon cs of [] \<Rightarrow> [[c]] | p # ps \<Rightarrow> (c # p) # ps))"

definition strip :: "string \<Rightarrow> string" where
  "strip s = rev (dropWhile is_space (rev (dropWhile is_space s)))"

definition startswith :: "string \<Rightarrow> string \<Rightarrow> bool" where
  "startswith s prefix = (take (length prefix) s = prefix)"

definition statements :: "string \<Rightarrow> string list" where
  "statements text = filter (\<lambda>stmt. stmt \<noteq> []) (map strip (split_semicolon text))"

text \<open>
  The three regular expressions of the loop, each matched at the start of the statement.
  Every class in them is disjoint from what must follow it, so the greedy match is the
  only one.

  Line 49, \<^verbatim>\<open>^(input|output|wire)\b(.*)$\<close> with \<^verbatim>\<open>re.I\<close>: the keyword in any case, then
  a word boundary, then the rest, in which \<^verbatim>\<open>.\<close> does not match a newline and \<^verbatim>\<open>$\<close>
  also matches before a newline that ends the string.
\<close>

definition line_rest :: "string \<Rightarrow> string option" where
  "line_rest rest =
     (if CHR 0x0A \<notin> set rest then Some rest
      else if last rest = CHR 0x0A \<and> CHR 0x0A \<notin> set (butlast rest) then Some (butlast rest)
      else None)"

definition match_keyword :: "string \<Rightarrow> string \<Rightarrow> (string \<times> string) option" where
  "match_keyword kw stmt =
     (let head = take (length kw) stmt; rest = drop (length kw) stmt
      in if map lower head = kw \<and> (case rest of [] \<Rightarrow> True | c # _ \<Rightarrow> \<not> is_word c)
         then map_option (\<lambda>r. (head, r)) (line_rest rest)
         else None)"

definition match_decl :: "string \<Rightarrow> (string \<times> string) option" where
  "match_decl stmt =
     (case match_keyword ''input'' stmt of
        Some m \<Rightarrow> Some m
      | None \<Rightarrow>
          (case match_keyword ''output'' stmt of
             Some m \<Rightarrow> Some m
           | None \<Rightarrow> match_keyword ''wire'' stmt))"

text \<open>
  The tail \<^verbatim>\<open>\((.*)\)$\<close> with \<^verbatim>\<open>re.S\<close> of lines 61 and 69: an opening parenthesis, then
  the longest text that leaves a closing parenthesis at the end of the string (or before
  a newline that ends it).
\<close>

definition port_list :: "string \<Rightarrow> string option" where
  "port_list r =
     (case r of
        [] \<Rightarrow> None
      | p # body \<Rightarrow>
          if p \<noteq> CHR ''('' then None
          else if body \<noteq> [] \<and> last body = CHR '')'' then Some (butlast body)
          else if body \<noteq> [] \<and> last body = CHR 0x0A \<and> butlast body \<noteq> [] \<and>
                  last (butlast body) = CHR '')''
               then Some (butlast (butlast body))
          else None)"

text \<open>
  Line 61, \<^verbatim>\<open>^([A-Za-z_][A-Za-z0-9_]*)\s+([A-Za-z0-9_]+)\s*\((.*)\)$\<close>: the three groups.
\<close>

definition match_named :: "string \<Rightarrow> (string \<times> string \<times> string) option" where
  "match_named stmt =
     (case stmt of
        [] \<Rightarrow> None
      | c # _ \<Rightarrow>
          if \<not> ident_start c then None
          else
            let g1 = takeWhile ident_char stmt;
                r1 = dropWhile ident_char stmt;
                r2 = dropWhile is_space r1;
                g2 = takeWhile ident_char r2;
                r3 = dropWhile is_space (dropWhile ident_char r2)
            in if r2 = r1 \<or> g2 = [] then None
               else map_option (\<lambda>g3. (g1, g2, g3)) (port_list r3))"

text \<open>Line 69, \<^verbatim>\<open>^([A-Za-z_][A-Za-z0-9_]*)\s*\((.*)\)$\<close>: the two groups.\<close>

definition match_anon :: "string \<Rightarrow> (string \<times> string) option" where
  "match_anon stmt =
     (case stmt of
        [] \<Rightarrow> None
      | c # _ \<Rightarrow>
          if \<not> ident_start c then None
          else
            let g1 = takeWhile ident_char stmt;
                r2 = dropWhile is_space (dropWhile ident_char stmt)
            in map_option (\<lambda>g2. (g1, g2)) (port_list r2))"

text \<open>
  Lines 66 to 67 and 73 to 74: \<^verbatim>\<open>if ids: gates.append(Gate(gtype, name, ids[0], ids[1:]))\<close>.
  The new Gate object gets the next address of the store (the number of Gate objects
  the call has created so far), with the dataclass defaults in the remaining fields.
\<close>

definition append_gate :: "string \<Rightarrow> string option \<Rightarrow> string list \<Rightarrow> netlist \<times> heap \<Rightarrow> netlist \<times> heap" where
  "append_gate gtype' name' ids st =
     (case ids of
        [] \<Rightarrow> st
      | out # ins \<Rightarrow>
          (case st of (nl, h) \<Rightarrow>
             (nl\<lparr>gates := gates nl @ [length (gates nl)]\<rparr>,
              h(length (gates nl) := Gate gtype' name' out ins))))"

text \<open>
  The body of the loop over the statements (lines 47 to 75). The four lists the loop
  fills are kept in a \<open>netlist\<close> record.
\<close>

definition parse_stmt :: "string \<Rightarrow> netlist \<times> heap \<Rightarrow> netlist \<times> heap" where
  "parse_stmt stmt st =
     (if startswith stmt ''module'' \<or> startswith stmt ''endmodule'' then st
      else case match_decl stmt of
        Some (g1, rest) \<Rightarrow>
          (let kind = map lower g1; ids = find_identifiers rest
           in case st of (nl, h) \<Rightarrow>
                if kind = ''input'' then (nl\<lparr>netlist.inputs := netlist.inputs nl @ ids\<rparr>, h)
                else if kind = ''output'' then (nl\<lparr>outputs := outputs nl @ ids\<rparr>, h)
                else if kind = ''wire'' then (nl\<lparr>wires := wires nl @ ids\<rparr>, h)
                else st)
      | None \<Rightarrow>
          (case match_named stmt of
             Some (g1, g2, g3) \<Rightarrow> append_gate (map lower g1) (Some g2) (find_identifiers g3) st
           | None \<Rightarrow>
               (case match_anon stmt of
                  Some (g1, g2) \<Rightarrow> append_gate (map lower g1) None (find_identifiers g2) st
                | None \<Rightarrow> st)))"

fun parse_stmts :: "string list \<Rightarrow> netlist \<times> heap \<Rightarrow> netlist \<times> heap" where
  "parse_stmts [] st = st"
| "parse_stmts (stmt # rest) st = parse_stmts rest (parse_stmt stmt st)"

text \<open>
  \<^verbatim>\<open>parse_netlist_text\<close> (lines 41 to 76). It returns the Netlist together with the
  store holding the Gate objects it has created; no object exists before the call.
\<close>

definition parse_netlist_text :: "string \<Rightarrow> netlist \<times> heap" where
  "parse_netlist_text text =
     (case parse_stmts (statements (remove_comments text))
             (\<lparr>netlist.inputs = [], outputs = [], wires = [], gates = []\<rparr>, (\<lambda>_. undefined)) of
        (nl, h) \<Rightarrow>
          (\<lparr>netlist.inputs = unique_preserve (netlist.inputs nl),
            outputs = unique_preserve (outputs nl),
            wires = unique_preserve (wires nl),
            gates = gates nl\<rparr>, h))"


section \<open>Vocabulary of the claims and of the proofs\<close>

text \<open>
  The gates of the netlist that drive an input of gate \<open>g\<close> (their output is one of its
  input signals), and the relation "gate \<open>g\<close> reads the output of gate \<open>d\<close>".
\<close>

definition drivers :: "netlist \<Rightarrow> heap \<Rightarrow> ref \<Rightarrow> ref list" where
  "drivers nl h g = filter (\<lambda>d. output (h d) \<in> set (gate.inputs (h g))) (gates nl)"

definition depends_on :: "netlist \<Rightarrow> heap \<Rightarrow> (ref \<times> ref) set" where
  "depends_on nl h = {(g, d). g \<in> set (gates nl) \<and> d \<in> set (drivers nl h g)}"

text \<open>
  For the proofs about the leveler: the store after one round (the gates of \<open>S\<close> get
  level \<open>n\<close>), the signals known at the start of round \<open>n\<close> (the primary inputs \<open>P\<close> and
  the outputs of the gates of \<open>G\<close> leveled below \<open>n\<close>), and the invariant of the
  \<^verbatim>\<open>while\<close> loop on a netlist that starts unleveled: the remaining gates are the
  unleveled ones, a gate leveled \<open>l\<close> had all its inputs known at round \<open>l\<close> and not
  before, and an unleveled gate was not ready in the previous round.
\<close>

definition lift_level :: "int \<Rightarrow> ref set \<Rightarrow> heap \<Rightarrow> heap" where
  "lift_level n S h = (\<lambda>g. if g \<in> S then (h g)\<lparr>level := Some n\<rparr> else h g)"

definition known_before :: "ref set \<Rightarrow> string set \<Rightarrow> heap \<Rightarrow> int \<Rightarrow> string set" where
  "known_before G P h n = P \<union> {output (h g) | g. g \<in> G \<and> (\<exists>l. level (h g) = Some l \<and> l < n)}"

definition leveling_inv :: "ref list \<Rightarrow> string set \<Rightarrow> ref list \<Rightarrow> string set \<Rightarrow> int \<Rightarrow> heap \<Rightarrow> bool" where
  "leveling_inv gs P rem known n h \<longleftrightarrow>
     1 \<le> n \<and>
     rem = filter (\<lambda>g. level (h g) = None) gs \<and>
     known = known_before (set gs) P h n \<and>
     (\<forall>g \<in> set gs. \<forall>l. level (h g) = Some l \<longrightarrow>
        1 \<le> l \<and> l < n \<and> ready (known_before (set gs) P h l) h g \<and>
        (l = 1 \<or> \<not> ready (known_before (set gs) P h (l - 1)) h g)) \<and>
     (\<forall>g \<in> set gs. level (h g) = None \<longrightarrow> n = 1 \<or> \<not> ready (known_before (set gs) P h (n - 1)) h g)"

text \<open>
  For the claims about the parser: the Gate objects of a netlist in the order of its gate
  list, the state before any statement is read, and the Gate objects the body of the loop
  creates for one statement taken on its own. \<open>consecutive\<close> is the invariant of the
  allocation: the gate list holds the addresses \<open>0, 1, 2, \<dots>\<close> in this order.
\<close>

definition gate_objects :: "netlist \<times> heap \<Rightarrow> gate list" where
  "gate_objects st = map (snd st) (gates (fst st))"

definition no_objects :: "netlist \<times> heap" where
  "no_objects = (\<lparr>netlist.inputs = [], outputs = [], wires = [], gates = []\<rparr>, (\<lambda>_. undefined))"

definition stmt_gates :: "string \<Rightarrow> gate list" where
  "stmt_gates stmt = gate_objects (parse_stmt stmt no_objects)"

definition consecutive :: "netlist \<times> heap \<Rightarrow> bool" where
  "consecutive st = (gates (fst st) = [0..<length (gates (fst st))])"

text \<open>
  For the proofs about the simulator: the references stored in a dictionary of lists.
\<close>

definition dict_refs :: "('k \<times> 'v list) list \<Rightarrow> 'v set" where
  "dict_refs d = (\<Union>kv \<in> set d. set (snd kv))"

definition dict_get :: "('k \<times> 'v list) list \<Rightarrow> 'k \<Rightarrow> 'v list" where
  "dict_get d k = (case map_of d k of None \<Rightarrow> [] | Some vs \<Rightarrow> vs)"

text \<open>
  The gates \<^verbatim>\<open>evaluate_gate\<close> has a branch for: the five types that take any number of
  inputs, and \<open>not\<close> with at least one input.
\<close>

definition supported :: "gate \<Rightarrow> bool" where
  "supported g = (gtype g \<in> {''nand'', ''and'', ''or'', ''nor'', ''xor''} \<or>
     (gtype g = ''not'' \<and> gate.inputs g \<noteq> []))"

section \<open>Example netlists\<close>

text \<open>
  \<open>c17_example\<close> is the text of the \<^verbatim>\<open>__main__\<close> blocks of both modules after
  \<^verbatim>\<open>textwrap.dedent\<close>; \<open>c17_netlist\<close> and \<open>c17_heap\<close> are what the parser makes of it,
  and \<open>c17_inputs\<close> is the input assignment of the spec's example. The other netlists
  are small inputs with a gate that drives a primary input, a signal with two drivers, a
  gate reading its own output, a cycle of two gates, and a declared output that no gate
  drives; a lemma \<open>\<dots>_parsed\<close> gives a text for each of them. \<open>second_driver\<close> has a gate
  that reads the signal it drives, which another gate drives too. The three \<open>stale\<close>
  netlists hold gates whose \<^verbatim>\<open>level\<close> field is already set when the leveler starts, as
  after an edit of a leveled netlist or a \<^verbatim>\<open>Gate\<close> built with a level. On
  \<open>partly_leveled\<close> the leveler raises in its second round, after it has leveled the
  first gate. \<open>no_gates\<close> declares signals and has no gate, \<open>buffer\<close> has a gate of a type
  that \<^verbatim>\<open>evaluate_gate\<close> does not know, and \<open>not_no_input\<close> a \<open>not\<close> gate without inputs.
\<close>

definition c17_example :: string where
  "c17_example = ''
module c17 (N1, N2, N3, N6, N7, N22, N23);
input N1, N2, N3, N6, N7;
output N22, N23;
wire N10, N11, N16, N19;

nand NAND2_1 (N10, N1, N3);
nand NAND2_2 (N11, N3, N6);
nand NAND2_3 (N16, N2, N11);
nand NAND2_4 (N19, N11, N7);
nand NAND2_5 (N22, N10, N16);
nand NAND2_6 (N23, N16, N19);
endmodule
''"

definition c17_netlist :: netlist where
  "c17_netlist =
     \<lparr>netlist.inputs = [''N1'', ''N2'', ''N3'', ''N6'', ''N7''], outputs = [''N22'', ''N23''],
      wires = [''N10'', ''N11'', ''N16'', ''N19''], gates = [0, 1, 2, 3, 4, 5]\<rparr>"

definition c17_heap :: heap where
  "c17_heap = (\<lambda>_. undefined)
     (0 := Gate ''nand'' (Some ''NAND2_1'') ''N10'' [''N1'', ''N3''],
      1 := Gate ''nand'' (Some ''NAND2_2'') ''N11'' [''N3'', ''N6''],
      2 := Gate ''nand'' (Some ''NAND2_3'') ''N16'' [''N2'', ''N11''],
      3 := Gate ''nand'' (Some ''NAND2_4'') ''N19'' [''N11'', ''N7''],
      4 := Gate ''nand'' (Some ''NAND2_5'') ''N22'' [''N10'', ''N16''],
      5 := Gate ''nand'' (Some ''NAND2_6'') ''N23'' [''N16'', ''N19''])"

definition c17_inputs :: "string \<rightharpoonup> int" where
  "c17_inputs = [''N1'' \<mapsto> 1, ''N2'' \<mapsto> 0, ''N3'' \<mapsto> 1, ''N6'' \<mapsto> 0, ''N7'' \<mapsto> 0]"

definition driven_input_netlist :: netlist where
  "driven_input_netlist =
     \<lparr>netlist.inputs = [''a'', ''b''], outputs = [], wires = [], gates = [0, 1]\<rparr>"

definition driven_input_heap :: heap where
  "driven_input_heap = (\<lambda>_. undefined)
     (0 := Gate ''and'' (Some ''g1'') ''x'' [''a'', ''b''],
      1 := Gate ''not'' (Some ''g2'') ''a'' [''x''])"

definition two_drivers_netlist :: netlist where
  "two_drivers_netlist =
     \<lparr>netlist.inputs = [''a'', ''b''], outputs = [], wires = [], gates = [0, 1, 2, 3]\<rparr>"

definition two_drivers_heap :: heap where
  "two_drivers_heap = (\<lambda>_. undefined)
     (0 := Gate ''and'' (Some ''g1'') ''s'' [''a'', ''b''],
      1 := Gate ''and'' (Some ''g2'') ''t'' [''a'', ''b''],
      2 := Gate ''and'' (Some ''g3'') ''s'' [''t'', ''a''],
      3 := Gate ''not'' (Some ''g4'') ''u'' [''s''])"

definition self_input_netlist :: netlist where
  "self_input_netlist = \<lparr>netlist.inputs = [''a''], outputs = [], wires = [], gates = [0]\<rparr>"

definition self_input_heap :: heap where
  "self_input_heap = (\<lambda>_. undefined)(0 := Gate ''not'' (Some ''g1'') ''a'' [''a''])"

definition cycle_netlist :: netlist where
  "cycle_netlist = \<lparr>netlist.inputs = [''a''], outputs = [], wires = [], gates = [0, 1]\<rparr>"

definition cycle_heap :: heap where
  "cycle_heap = (\<lambda>_. undefined)
     (0 := Gate ''and'' (Some ''g1'') ''x'' [''a'', ''y''],
      1 := Gate ''not'' (Some ''g2'') ''y'' [''x''])"

definition undriven_netlist :: netlist where
  "undriven_netlist =
     \<lparr>netlist.inputs = [''a'', ''b''], outputs = [''y'', ''z''], wires = [], gates = [0]\<rparr>"

definition undriven_heap :: heap where
  "undriven_heap = (\<lambda>_. undefined)(0 := Gate ''not'' (Some ''g1'') ''y'' [''a''])"

definition second_driver_netlist :: netlist where
  "second_driver_netlist = \<lparr>netlist.inputs = [''a''], outputs = [], wires = [], gates = [0, 1]\<rparr>"

definition second_driver_heap :: heap where
  "second_driver_heap = (\<lambda>_. undefined)
     (0 := Gate ''not'' (Some ''g1'') ''s'' [''a''],
      1 := Gate ''and'' (Some ''g2'') ''s'' [''s'', ''a''])"

definition stale_level_netlist :: netlist where
  "stale_level_netlist = \<lparr>netlist.inputs = [''a''], outputs = [], wires = [], gates = [0, 1]\<rparr>"

definition stale_level_heap :: heap where
  "stale_level_heap = (\<lambda>_. undefined)
     (0 := Gate ''not'' (Some ''g1'') ''x'' [''a''],
      1 := (Gate ''not'' (Some ''g2'') ''y'' [''x''])\<lparr>level := Some 7\<rparr>)"

definition stale_cycle_netlist :: netlist where
  "stale_cycle_netlist = \<lparr>netlist.inputs = [''a''], outputs = [], wires = [], gates = [0, 1, 2]\<rparr>"

definition stale_cycle_heap :: heap where
  "stale_cycle_heap = (\<lambda>_. undefined)
     (0 := Gate ''not'' (Some ''g0'') ''z'' [''a''],
      1 := (Gate ''and'' (Some ''g1'') ''x'' [''a'', ''y''])\<lparr>level := Some 5\<rparr>,
      2 := (Gate ''not'' (Some ''g2'') ''y'' [''x''])\<lparr>level := Some 6\<rparr>)"

definition partly_leveled_netlist :: netlist where
  "partly_leveled_netlist = \<lparr>netlist.inputs = [''a''], outputs = [], wires = [], gates = [0, 1]\<rparr>"

definition partly_leveled_heap :: heap where
  "partly_leveled_heap = (\<lambda>_. undefined)
     (0 := Gate ''not'' (Some ''g1'') ''y'' [''a''],
      1 := Gate ''not'' (Some ''g2'') ''z'' [''w''])"









lemma c17_parsed:
  "fst (parse_netlist_text c17_example) = c17_netlist \<and>
   map (snd (parse_netlist_text c17_example)) (gates c17_netlist) = map c17_heap (gates c17_netlist)"
proof -
  have "case parse_netlist_text c17_example of
      (nl, h) \<Rightarrow> nl = c17_netlist \<and> map h (gates nl) = map c17_heap (gates nl)"
    by code_simp
  then show ?thesis
    by (simp split: prod.splits)
qed

lemma driven_input_parsed:
  "fst (parse_netlist_text ''input a, b; and g1 (x, a, b); not g2 (a, x);'') = driven_input_netlist \<and>
   map (snd (parse_netlist_text ''input a, b; and g1 (x, a, b); not g2 (a, x);'')) (gates driven_input_netlist) = map driven_input_heap (gates driven_input_netlist)"
proof -
  have "case parse_netlist_text ''input a, b; and g1 (x, a, b); not g2 (a, x);'' of
      (nl, h) \<Rightarrow> nl = driven_input_netlist \<and> map h (gates nl) = map driven_input_heap (gates nl)"
    by code_simp
  then show ?thesis
    by (simp split: prod.splits)
qed

lemma two_drivers_parsed:
  "fst (parse_netlist_text ''input a, b; and g1 (s, a, b); and g2 (t, a, b); and g3 (s, t, a); not g4 (u, s);'') = two_drivers_netlist \<and>
   map (snd (parse_netlist_text ''input a, b; and g1 (s, a, b); and g2 (t, a, b); and g3 (s, t, a); not g4 (u, s);'')) (gates two_drivers_netlist) = map two_drivers_heap (gates two_drivers_netlist)"
proof -
  have "case parse_netlist_text ''input a, b; and g1 (s, a, b); and g2 (t, a, b); and g3 (s, t, a); not g4 (u, s);'' of
      (nl, h) \<Rightarrow> nl = two_drivers_netlist \<and> map h (gates nl) = map two_drivers_heap (gates nl)"
    by code_simp
  then show ?thesis
    by (simp split: prod.splits)
qed

lemma self_input_parsed:
  "fst (parse_netlist_text ''input a; not g1 (a, a);'') = self_input_netlist \<and>
   map (snd (parse_netlist_text ''input a; not g1 (a, a);'')) (gates self_input_netlist) = map self_input_heap (gates self_input_netlist)"
proof -
  have "case parse_netlist_text ''input a; not g1 (a, a);'' of
      (nl, h) \<Rightarrow> nl = self_input_netlist \<and> map h (gates nl) = map self_input_heap (gates nl)"
    by code_simp
  then show ?thesis
    by (simp split: prod.splits)
qed

lemma cycle_parsed:
  "fst (parse_netlist_text ''input a; and g1 (x, a, y); not g2 (y, x);'') = cycle_netlist \<and>
   map (snd (parse_netlist_text ''input a; and g1 (x, a, y); not g2 (y, x);'')) (gates cycle_netlist) = map cycle_heap (gates cycle_netlist)"
proof -
  have "case parse_netlist_text ''input a; and g1 (x, a, y); not g2 (y, x);'' of
      (nl, h) \<Rightarrow> nl = cycle_netlist \<and> map h (gates nl) = map cycle_heap (gates nl)"
    by code_simp
  then show ?thesis
    by (simp split: prod.splits)
qed

lemma undriven_parsed:
  "fst (parse_netlist_text ''input a, b; output y, z; not g1 (y, a);'') = undriven_netlist \<and>
   map (snd (parse_netlist_text ''input a, b; output y, z; not g1 (y, a);'')) (gates undriven_netlist) = map undriven_heap (gates undriven_netlist)"
proof -
  have "case parse_netlist_text ''input a, b; output y, z; not g1 (y, a);'' of
      (nl, h) \<Rightarrow> nl = undriven_netlist \<and> map h (gates nl) = map undriven_heap (gates nl)"
    by code_simp
  then show ?thesis
    by (simp split: prod.splits)
qed

lemma second_driver_parsed:
  "fst (parse_netlist_text ''input a; not g1 (s, a); and g2 (s, s, a);'') = second_driver_netlist \<and>
   map (snd (parse_netlist_text ''input a; not g1 (s, a); and g2 (s, s, a);''))
     (gates second_driver_netlist) = map second_driver_heap (gates second_driver_netlist)"
proof -
  have "case parse_netlist_text ''input a; not g1 (s, a); and g2 (s, s, a);'' of
      (nl, h) \<Rightarrow> nl = second_driver_netlist \<and>
        map h (gates nl) = map second_driver_heap (gates nl)"
    by code_simp
  then show ?thesis
    by (simp split: prod.splits)
qed

lemma partly_leveled_parsed:
  "fst (parse_netlist_text ''input a; not g1 (y, a); not g2 (z, w);'') = partly_leveled_netlist \<and>
   map (snd (parse_netlist_text ''input a; not g1 (y, a); not g2 (z, w);'')) (gates partly_leveled_netlist) =
     map partly_leveled_heap (gates partly_leveled_netlist)"
proof -
  have "case parse_netlist_text ''input a; not g1 (y, a); not g2 (z, w);'' of
      (nl, h) \<Rightarrow> nl = partly_leveled_netlist \<and> map h (gates nl) = map partly_leveled_heap (gates nl)"
    by code_simp
  then show ?thesis
    by (simp split: prod.splits)
qed




section \<open>The evaluator: xor and not\<close>

lemma sum_list_bits_odd:
  fixes vs :: "int list"
  shows "list_all (\<lambda>v. v = 0 \<or> v = 1) vs \<Longrightarrow>
    odd (sum_list vs) = odd (length (filter (\<lambda>v. v = 1) vs))"
  by (induction vs) auto

lemma sum_list_bits_parity:
  fixes vs :: "int list"
  assumes "list_all (\<lambda>v. v = 0 \<or> v = 1) vs"
  shows "sum_list vs mod 2 = (if odd (length (filter (\<lambda>v. v = 1) vs)) then 1 else 0)"
  using sum_list_bits_odd [OF assms] by (simp add: mod_2_eq_odd)

text \<open>
  C8. A gate of type \<open>xor\<close> all of whose inputs have a value 0 or 1 evaluates to the sum
  of these values modulo 2, for any number of inputs: the result is 1 exactly when an odd
  number of inputs is 1, and 0 otherwise.
\<close>

theorem evaluate_gate_xor_parity:
  assumes "gtype g = ''xor''"
    and "map sv (gate.inputs g) = map Some vs"
    and "list_all (\<lambda>v. v = 0 \<or> v = 1) vs"
  shows "evaluate_gate g sv = Inr (sum_list vs mod 2) \<and>
         evaluate_gate g sv = Inr (if odd (length (filter (\<lambda>v. v = 1) vs)) then 1 else 0)"
proof -
  have "None \<notin> set (map sv (gate.inputs g))"
    by (simp add: assms(2))
  moreover have "map the (map sv (gate.inputs g)) = vs"
    by (simp add: assms(2) comp_def)
  ultimately have "evaluate_gate g sv = Inr (sum_list vs mod 2)"
    using assms(1) by (simp add: evaluate_gate_def Let_def del: set_map map_map)
  then show ?thesis
    using sum_list_bits_parity [OF assms(3)] by simp
qed


text \<open>Three inputs, all 1: the parity is 1.\<close>

theorem evaluate_gate_xor_parity_witness:
  "gtype \<lparr>gtype = ''xor'', name = Some ''X1'', output = ''y'', gate.inputs = [''a'', ''b'', ''c''],
      value_inp = [], value_out = None, level = Some 1\<rparr> = ''xor'' \<and>
   map [''a'' \<mapsto> 1, ''b'' \<mapsto> 1, ''c'' \<mapsto> 1]
     (gate.inputs \<lparr>gtype = ''xor'', name = Some ''X1'', output = ''y'',
        gate.inputs = [''a'', ''b'', ''c''], value_inp = [], value_out = None, level = Some 1\<rparr>)
     = map Some [1, 1, 1] \<and>
   list_all (\<lambda>v. v = 0 \<or> v = 1) [1, 1, 1 :: int] \<and>
   evaluate_gate \<lparr>gtype = ''xor'', name = Some ''X1'', output = ''y'',
      gate.inputs = [''a'', ''b'', ''c''], value_inp = [], value_out = None, level = Some 1\<rparr>
     [''a'' \<mapsto> 1, ''b'' \<mapsto> 1, ''c'' \<mapsto> 1] = Inr 1"
  using evaluate_gate_xor_parity [of
      "\<lparr>gtype = ''xor'', name = Some ''X1'', output = ''y'', gate.inputs = [''a'', ''b'', ''c''],
        value_inp = [], value_out = None, level = Some 1\<rparr>"
      "[''a'' \<mapsto> 1, ''b'' \<mapsto> 1, ''c'' \<mapsto> 1]" "[1, 1, 1]"]
  by simp

text \<open>
  C10. A gate of type \<open>not\<close> with at least one input, all inputs having a value and the
  first one being 0 or 1, evaluates to the complement of the first input, whatever the
  values of the other inputs are.
\<close>

theorem evaluate_gate_not_first:
  assumes "gtype g = ''not''"
    and "map sv (gate.inputs g) = map Some (v # vs)"
    and "v = 0 \<or> v = 1"
  shows "evaluate_gate g sv = Inr (1 - v)"
proof -
  have "None \<notin> set (map sv (gate.inputs g))"
    by (simp add: assms(2))
  moreover have "map the (map sv (gate.inputs g)) = v # vs"
    by (simp add: assms(2) comp_def)
  ultimately have "evaluate_gate g sv = Inr (if v \<noteq> 0 then 0 else 1)"
    using assms(1) by (simp add: evaluate_gate_def Let_def del: set_map map_map)
  then show ?thesis
    using assms(3) by auto
qed

text \<open>Two inputs, 0 and 1: the result is the complement of the first.\<close>

theorem evaluate_gate_not_first_witness:
  "gtype \<lparr>gtype = ''not'', name = Some ''I1'', output = ''y'', gate.inputs = [''a'', ''b''],
      value_inp = [], value_out = None, level = Some 1\<rparr> = ''not'' \<and>
   map [''a'' \<mapsto> 0, ''b'' \<mapsto> 1]
     (gate.inputs \<lparr>gtype = ''not'', name = Some ''I1'', output = ''y'',
        gate.inputs = [''a'', ''b''], value_inp = [], value_out = None, level = Some 1\<rparr>)
     = map Some (0 # [1]) \<and>
   ((0::int) = 0 \<or> (0::int) = 1) \<and>
   evaluate_gate \<lparr>gtype = ''not'', name = Some ''I1'', output = ''y'',
      gate.inputs = [''a'', ''b''], value_inp = [], value_out = None, level = Some 1\<rparr>
     [''a'' \<mapsto> 0, ''b'' \<mapsto> 1] = Inr 1"
  using evaluate_gate_not_first [of
      "\<lparr>gtype = ''not'', name = Some ''I1'', output = ''y'', gate.inputs = [''a'', ''b''],
        value_inp = [], value_out = None, level = Some 1\<rparr>"
      "[''a'' \<mapsto> 0, ''b'' \<mapsto> 1]" 0 "[1]"]
  by simp

section \<open>The leveler: rounds, idempotence, levels of drivers\<close>

lemma level_round_eq:
  "level_round rem known n h [] =
     (lift_level n {g \<in> set rem. ready known h g} h, filter (ready known h) rem)"
proof (rule prod_eqI)
  show "fst (level_round rem known n h []) =
      fst (lift_level n {g \<in> set rem. ready known h g} h, filter (ready known h) rem)"
    by (rule ext) (simp add: level_round_heap lift_level_def)
  show "snd (level_round rem known n h []) =
      snd (lift_level n {g \<in> set rem. ready known h g} h, filter (ready known h) rem)"
    by (simp add: level_round_current)
qed

lemma lift_level_fields [simp]:
  "gate.inputs (lift_level n S h g) = gate.inputs (h g)"
  "output (lift_level n S h g) = output (h g)"
  "gtype (lift_level n S h g) = gtype (h g)"
  "name (lift_level n S h g) = name (h g)"
  by (simp_all add: lift_level_def)

lemma lift_level_level:
  "level (lift_level n S h g) = (if g \<in> S then Some n else level (h g))"
  by (simp add: lift_level_def)

lemma ready_lift [simp]: "ready known (lift_level n S h) g = ready known h g"
  by (simp add: ready_def)

lemma assign_loop_Nil [simp]: "assign_loop [] known n h = Inr h"
  by (subst assign_loop.simps) simp

lemma assign_loop_stuck:
  assumes "rem \<noteq> []" and "filter (ready known h) rem = []"
  shows "assign_loop rem known n h = Inl ValueError_cannot_resolve"
  using assms by (subst assign_loop.simps) (simp add: level_round_eq)

lemma assign_loop_step:
  assumes "rem \<noteq> []" and "filter (ready known h) rem \<noteq> []"
  shows "assign_loop rem known n h =
     assign_loop
       (filter (\<lambda>g. level (lift_level n {g \<in> set rem. ready known h g} h g) = None) rem)
       (known \<union> (\<lambda>g. output (h g)) ` {g \<in> set rem. ready known h g})
       (n + 1)
       (lift_level n {g \<in> set rem. ready known h g} h)"
  using assms by (subst assign_loop.simps) (simp add: level_round_eq)

lemma assign_loop_induct [case_names round]:
  assumes "\<And>rem known n h.
     (rem \<noteq> [] \<Longrightarrow> filter (ready known h) rem \<noteq> [] \<Longrightarrow>
        P (filter (\<lambda>g. level (lift_level n {g \<in> set rem. ready known h g} h g) = None) rem)
          (known \<union> (\<lambda>g. output (h g)) ` {g \<in> set rem. ready known h g})
          (n + 1)
          (lift_level n {g \<in> set rem. ready known h g} h))
     \<Longrightarrow> P rem known n h"
  shows "P rem known n h"
proof (induction rem known n h rule: assign_loop.induct)
  case (1 rem known n h)
  show ?case
  proof (rule assms)
    assume ne: "rem \<noteq> []" and cur: "filter (ready known h) rem \<noteq> []"
    have "P (filter (\<lambda>g. level (fst (level_round rem known n h []) g) = None) rem)
            (known \<union> (\<lambda>gate. output (fst (level_round rem known n h []) gate)) `
               set (snd (level_round rem known n h [])))
            (n + 1) (fst (level_round rem known n h []))"
      using ne cur
      by (intro "1.IH" [OF ne prod.collapse]) (simp add: level_round_eq)
    then show "P (filter (\<lambda>g. level (lift_level n {g \<in> set rem. ready known h g} h g) = None) rem)
          (known \<union> (\<lambda>g. output (h g)) ` {g \<in> set rem. ready known h g})
          (n + 1)
          (lift_level n {g \<in> set rem. ready known h g} h)"
      by (simp add: level_round_eq)
  qed
qed


lemma assign_loop_error:
  "assign_loop rem known n h = Inl e \<Longrightarrow> e = ValueError_cannot_resolve"
proof (induction rem known n h rule: assign_loop_induct)
  case (round rem known n h)
  show ?case
  proof (cases "rem = []")
    case True
    with round.prems show ?thesis by simp
  next
    case ne: False
    show ?thesis
    proof (cases "filter (ready known h) rem = []")
      case True
      with ne round.prems show ?thesis
        by (simp add: assign_loop_stuck)
    next
      case False
      with ne round.prems show ?thesis
        by (intro round.IH) (simp_all add: assign_loop_step)
    qed
  qed
qed

lemma assign_loop_store_run:
  "assign_loop rem known n h = Inr hf \<Longrightarrow> assign_loop_store rem known n h = hf"
proof (induction rem known n h rule: assign_loop_induct)
  case (round rem known n h)
  show ?case
  proof (cases "rem = []")
    case True
    with round.prems show ?thesis
      by (subst assign_loop_store.simps) simp
  next
    case ne: False
    show ?thesis
    proof (cases "filter (ready known h) rem = []")
      case True
      with ne round.prems show ?thesis
        by (simp add: assign_loop_stuck)
    next
      case False
      with ne round.prems have "assign_loop_store
          (filter (\<lambda>g. level (lift_level n {g \<in> set rem. ready known h g} h g) = None) rem)
          (known \<union> (\<lambda>g. output (h g)) ` {g \<in> set rem. ready known h g})
          (n + 1)
          (lift_level n {g \<in> set rem. ready known h g} h) = hf"
        by (intro round.IH) (simp_all add: assign_loop_step)
      with ne False show ?thesis
        by (subst assign_loop_store.simps) (simp add: level_round_eq)
    qed
  qed
qed

lemma leveled_run:
  assumes "\<not> isl (assign_levels nl h)"
  shows "assign_levels nl h = Inr (leveled nl h)"
proof (cases "assign_levels nl h")
  case (Inl e)
  with assms show ?thesis
    by simp
next
  case (Inr hf)
  then have "leveled nl h = hf"
    by (simp add: assign_levels_def leveled_def assign_loop_store_run)
  with Inr show ?thesis
    by simp
qed

lemma c17_run: "assign_levels c17_netlist c17_heap = Inr (leveled c17_netlist c17_heap)"
proof (rule leveled_run)
  show "\<not> isl (assign_levels c17_netlist c17_heap)"
    by code_simp
qed

lemma undriven_run:
  "assign_levels undriven_netlist undriven_heap = Inr (leveled undriven_netlist undriven_heap)"
proof (rule leveled_run)
  show "\<not> isl (assign_levels undriven_netlist undriven_heap)"
    by code_simp
qed

lemma assign_loop_frame:
  "assign_loop rem known n h = Inr hf \<Longrightarrow> hf g = (h g)\<lparr>level := level (hf g)\<rparr>"
proof (induction rem known n h rule: assign_loop_induct)
  case (round rem known n h)
  show ?case
  proof (cases "rem = []")
    case True
    with round.prems show ?thesis by simp
  next
    case ne: False
    show ?thesis
    proof (cases "filter (ready known h) rem = []")
      case True
      with ne round.prems show ?thesis
        by (simp add: assign_loop_stuck)
    next
      case False
      with ne round.prems
      have "hf g = (lift_level n {g \<in> set rem. ready known h g} h g)\<lparr>level := level (hf g)\<rparr>"
        by (intro round.IH) (simp_all add: assign_loop_step)
      then show ?thesis
        by (simp add: lift_level_def split: if_splits)
    qed
  qed
qed

lemma assign_loop_outside:
  "assign_loop rem known n h = Inr hf \<Longrightarrow> g \<notin> set rem \<Longrightarrow> hf g = h g"
proof (induction rem known n h rule: assign_loop_induct)
  case (round rem known n h)
  show ?case
  proof (cases "rem = []")
    case True
    with round.prems show ?thesis by simp
  next
    case ne: False
    show ?thesis
    proof (cases "filter (ready known h) rem = []")
      case True
      with ne round.prems show ?thesis
        by (simp add: assign_loop_stuck)
    next
      case False
      with ne round.prems
      have "hf g = lift_level n {g \<in> set rem. ready known h g} h g"
        by (intro round.IH) (simp_all add: assign_loop_step)
      with round.prems(2) show ?thesis
        by (simp add: lift_level_def)
    qed
  qed
qed

lemma assign_loop_leveled:
  "assign_loop rem known n h = Inr hf \<Longrightarrow> g \<in> set rem \<or> level (h g) \<noteq> None \<Longrightarrow>
   level (hf g) \<noteq> None"
proof (induction rem known n h rule: assign_loop_induct)
  case (round rem known n h)
  show ?case
  proof (cases "rem = []")
    case True
    with round.prems show ?thesis by simp
  next
    case ne: False
    show ?thesis
    proof (cases "filter (ready known h) rem = []")
      case True
      with ne round.prems show ?thesis
        by (simp add: assign_loop_stuck)
    next
      case False
      let ?h' = "lift_level n {g \<in> set rem. ready known h g} h"
      have "g \<in> set (filter (\<lambda>g. level (?h' g) = None) rem) \<or> level (?h' g) \<noteq> None"
        using round.prems(2) by (auto simp add: lift_level_level)
      with ne False round.prems(1) show ?thesis
        by (intro round.IH) (simp_all add: assign_loop_step)
    qed
  qed
qed

text \<open>
  C7. If a run of the leveler succeeds, running it again on the netlist it has leveled
  succeeds too and leaves the store as it is: every gate keeps its level.
\<close>

theorem assign_levels_idempotent:
  assumes "assign_levels nl h = Inr h'"
  shows "assign_levels nl h' = Inr h'"
proof (cases "gates nl = []")
  case True
  with assms show ?thesis
    by (simp add: assign_levels_def)
next
  case ne: False
  let ?P = "set (netlist.inputs nl)"
  let ?R = "{g \<in> set (gates nl). ready ?P h g}"
  let ?h1 = "lift_level 1 ?R h"
  let ?rem1 = "filter (\<lambda>g. level (?h1 g) = None) (gates nl)"
  from assms have run: "assign_loop (gates nl) ?P 1 h = Inr h'"
    by (simp add: assign_levels_def)
  have cur: "filter (ready ?P h) (gates nl) \<noteq> []"
  proof
    assume "filter (ready ?P h) (gates nl) = []"
    with ne run show False
      by (simp add: assign_loop_stuck)
  qed
  with ne run have rest: "assign_loop ?rem1 (?P \<union> (\<lambda>g. output (h g)) ` ?R) (1 + 1) ?h1 = Inr h'"
    by (simp add: assign_loop_step)
  have inputs_same: "gate.inputs (h' g) = gate.inputs (h g)" for g
    using assign_loop_frame [OF run, of g] by (metis gate.select_convs(4) gate.surjective gate.update_convs(7))
  then have ready_same: "ready ?P h' g = ready ?P h g" for g
    by (simp add: ready_def)
  have leveled: "level (h' g) \<noteq> None" if "g \<in> set (gates nl)" for g
    using assign_loop_leveled [OF run] that by simp
  have first: "level (h' g) = Some 1" if "g \<in> ?R" for g
  proof -
    from that have "g \<notin> set ?rem1"
      by (simp add: lift_level_level)
    then have "h' g = ?h1 g"
      by (rule assign_loop_outside [OF rest])
    with that show ?thesis
      by (simp add: lift_level_level)
  qed
  have stable: "lift_level 1 {g \<in> set (gates nl). ready ?P h' g} h' = h'"
    by (rule ext) (simp add: lift_level_def ready_same first)
  have cur': "filter (ready ?P h') (gates nl) \<noteq> []"
    using cur by (simp add: ready_same cong: filter_cong)
  have "assign_loop (gates nl) ?P 1 h' =
      assign_loop (filter (\<lambda>g. level (h' g) = None) (gates nl))
        (?P \<union> (\<lambda>g. output (h' g)) ` {g \<in> set (gates nl). ready ?P h' g}) (1 + 1) h'"
    using assign_loop_step [OF ne cur', of 1] by (simp only: stable)
  moreover have "filter (\<lambda>g. level (h' g) = None) (gates nl) = []"
    using leveled by (simp add: filter_empty_conv)
  ultimately show ?thesis
    by (simp add: assign_levels_def)
qed

text \<open>The example network c17: the second run returns the store of the first.\<close>

theorem assign_levels_idempotent_witness:
  "assign_levels c17_netlist c17_heap = Inr (leveled c17_netlist c17_heap) \<and>
   assign_levels c17_netlist (leveled c17_netlist c17_heap) = Inr (leveled c17_netlist c17_heap)"
  using assign_levels_idempotent [OF c17_run] c17_run by simp

lemma ready_fields:
  "gate.inputs (h' g) = gate.inputs (h g) \<Longrightarrow> ready K h' g = ready K h g"
  by (simp add: ready_def)

lemma known_before_lift_below:
  assumes "\<And>g. g \<in> R \<Longrightarrow> level (h g) = None" and "l \<le> n"
  shows "known_before G P (lift_level n R h) l = known_before G P h l"
proof -
  have "(\<exists>l'. level (lift_level n R h g) = Some l' \<and> l' < l) =
        (\<exists>l'. level (h g) = Some l' \<and> l' < l)" for g
    using assms by (cases "g \<in> R") (auto simp add: lift_level_level)
  then show ?thesis
    by (simp add: known_before_def)
qed

lemma known_before_lift_next:
  assumes "\<And>g. g \<in> R \<Longrightarrow> level (h g) = None" and "R \<subseteq> G"
    and "\<And>g l. g \<in> G \<Longrightarrow> level (h g) = Some l \<Longrightarrow> l < n"
  shows "known_before G P (lift_level n R h) (n + 1) = known_before G P h n \<union> (\<lambda>g. output (h g)) ` R"
proof -
  have eq: "(\<exists>l'. level (lift_level n R h g) = Some l' \<and> l' < n + 1) =
        (g \<in> R \<or> (\<exists>l'. level (h g) = Some l' \<and> l' < n))" if "g \<in> G" for g
    using assms(1) [of g] assms(3) [OF that] by (cases "g \<in> R") (auto simp add: lift_level_level)
  have "(g \<in> G \<and> (\<exists>l. level (lift_level n R h g) = Some l \<and> l < n + 1)) =
        (g \<in> G \<and> (g \<in> R \<or> (\<exists>l. level (h g) = Some l \<and> l < n)))" for g
    using eq [of g] by blast
  then have "{output (lift_level n R h g) | g. g \<in> G \<and> (\<exists>l. level (lift_level n R h g) = Some l \<and> l < n + 1)}
      = {output (h g) | g. g \<in> G \<and> (g \<in> R \<or> (\<exists>l. level (h g) = Some l \<and> l < n))}"
    by simp
  also have "\<dots> = {output (h g) | g. g \<in> G \<and> (\<exists>l. level (h g) = Some l \<and> l < n)} \<union>
      (\<lambda>g. output (h g)) ` R"
    using assms(2) by blast
  finally show ?thesis
    by (simp add: known_before_def Un_assoc)
qed

lemma leveling_inv_step:
  assumes inv: "leveling_inv gs P rem known n h"
  defines "R \<equiv> {g \<in> set rem. ready known h g}"
  defines "h' \<equiv> lift_level n R h"
  shows "leveling_inv gs P (filter (\<lambda>g. level (h' g) = None) rem)
           (known \<union> (\<lambda>g. output (h g)) ` R) (n + 1) h'"
proof -
  let ?G = "set gs"
  from inv have n: "1 \<le> n"
    and rem: "rem = filter (\<lambda>g. level (h g) = None) gs"
    and known: "known = known_before ?G P h n"
    and lev: "\<And>g l. g \<in> ?G \<Longrightarrow> level (h g) = Some l \<Longrightarrow>
        1 \<le> l \<and> l < n \<and> ready (known_before ?G P h l) h g \<and> (l = 1 \<or> \<not> ready (known_before ?G P h (l - 1)) h g)"
    and unlev: "\<And>g. g \<in> ?G \<Longrightarrow> level (h g) = None \<Longrightarrow>
        n = 1 \<or> \<not> ready (known_before ?G P h (n - 1)) h g"
    by (simp_all add: leveling_inv_def)
  have R_unlev: "level (h g) = None" if "g \<in> R" for g
    using that rem by (simp add: R_def)
  have R_sub: "R \<subseteq> ?G"
    using rem by (auto simp add: R_def)
  have below: "known_before ?G P h' l = known_before ?G P h l" if "l \<le> n" for l
    unfolding h'_def using R_unlev that by (rule known_before_lift_below)
  have nxt: "known_before ?G P h' (n + 1) = known_before ?G P h n \<union> (\<lambda>g. output (h g)) ` R"
    unfolding h'_def using R_unlev R_sub lev by (intro known_before_lift_next) auto
  have rdy: "ready K h' g = ready K h g" for K g
    by (simp add: h'_def)
  have lvl: "level (h' g) = (if g \<in> R then Some n else level (h g))" for g
    by (simp add: h'_def lift_level_level)
  have "filter (\<lambda>g. level (h' g) = None) rem = filter (\<lambda>g. level (h' g) = None) gs"
    by (subst rem) (auto simp add: lvl R_unlev intro!: filter_cong split: if_splits)
  moreover have "known \<union> (\<lambda>g. output (h g)) ` R = known_before ?G P h' (n + 1)"
    by (simp add: nxt known)
  moreover have "1 \<le> l \<and> l < n + 1 \<and> ready (known_before ?G P h' l) h' g \<and>
        (l = 1 \<or> \<not> ready (known_before ?G P h' (l - 1)) h' g)"
    if g: "g \<in> ?G" and l: "level (h' g) = Some l" for g l
  proof (cases "g \<in> R")
    case True
    with l have ln: "l = n"
      by (simp add: lvl)
    from True have "ready (known_before ?G P h n) h g"
      by (simp add: R_def known)
    moreover from unlev [OF g R_unlev [OF True]] have "n = 1 \<or> \<not> ready (known_before ?G P h (n - 1)) h g" .
    ultimately show ?thesis
      using n by (simp add: ln rdy below)
  next
    case False
    with l have "level (h g) = Some l"
      by (simp add: lvl)
    from lev [OF g this] show ?thesis
      by (simp add: rdy below)
  qed
  moreover have "n + 1 = 1 \<or> \<not> ready (known_before ?G P h' (n + 1 - 1)) h' g"
    if g: "g \<in> ?G" and l: "level (h' g) = None" for g
  proof -
    from l have "g \<notin> R" and "level (h g) = None"
      by (simp_all add: lvl split: if_splits)
    with g rem have "\<not> ready known h g"
      by (simp add: R_def)
    then show ?thesis
      by (simp add: rdy below known)
  qed
  ultimately show ?thesis
    using n unfolding leveling_inv_def by (intro conjI ballI allI impI) simp_all
qed

lemma leveling_inv_final:
  assumes "leveling_inv gs P rem known n h" and "assign_loop rem known n h = Inr hf"
  shows "\<exists>m. leveling_inv gs P [] (known_before (set gs) P hf m) m hf"
  using assms
proof (induction rem known n h rule: assign_loop_induct)
  case (round rem known n h)
  show ?case
  proof (cases "rem = []")
    case True
    with round.prems have "hf = h" by simp
    with True round.prems(1) show ?thesis
      by (auto simp add: leveling_inv_def)
  next
    case ne: False
    show ?thesis
    proof (cases "filter (ready known h) rem = []")
      case True
      with ne round.prems show ?thesis
        by (simp add: assign_loop_stuck)
    next
      case False
      show ?thesis
      proof (rule round.IH [OF ne False])
        show "leveling_inv gs P
            (filter (\<lambda>g. level (lift_level n {g \<in> set rem. ready known h g} h g) = None) rem)
            (known \<union> (\<lambda>g. output (h g)) ` {g \<in> set rem. ready known h g}) (n + 1)
            (lift_level n {g \<in> set rem. ready known h g} h)"
          by (rule leveling_inv_step [OF round.prems(1)])
        show "assign_loop
            (filter (\<lambda>g. level (lift_level n {g \<in> set rem. ready known h g} h g) = None) rem)
            (known \<union> (\<lambda>g. output (h g)) ` {g \<in> set rem. ready known h g}) (n + 1)
            (lift_level n {g \<in> set rem. ready known h g} h) = Inr hf"
          using round.prems(2) ne False by (simp add: assign_loop_step)
      qed
    qed
  qed
qed

lemma leveling_inv_initial:
  assumes "\<And>g. g \<in> set gs \<Longrightarrow> level (h g) = None"
  shows "leveling_inv gs P gs P 1 h"
proof -
  have "filter (\<lambda>g. level (h g) = None) gs = gs"
    using assms by (simp add: filter_id_conv)
  moreover have "known_before (set gs) P h 1 = P"
    using assms by (auto simp add: known_before_def)
  ultimately show ?thesis
    using assms by (simp add: leveling_inv_def)
qed

lemma assign_loop_fields:
  assumes "assign_loop rem known n h = Inr hf"
  shows "gate.inputs (hf g) = gate.inputs (h g)" and "output (hf g) = output (h g)"
proof -
  have "hf g = (h g)\<lparr>level := level (hf g)\<rparr>"
    using assms by (rule assign_loop_frame)
  then have "gate.inputs (hf g) = gate.inputs ((h g)\<lparr>level := level (hf g)\<rparr>)"
    and "output (hf g) = output ((h g)\<lparr>level := level (hf g)\<rparr>)"
    by simp_all
  then show "gate.inputs (hf g) = gate.inputs (h g)" and "output (hf g) = output (h g)"
    by simp_all
qed

lemma assign_levels_char:
  assumes run: "assign_levels nl h = Inr h'"
    and fresh: "list_all (\<lambda>g. level (h g) = None) (gates nl)"
    and g: "g \<in> set (gates nl)"
  shows "\<exists>l. level (h' g) = Some l \<and> 1 \<le> l \<and>
     ready (known_before (set (gates nl)) (set (netlist.inputs nl)) h' l) h g \<and>
     (l = 1 \<or> \<not> ready (known_before (set (gates nl)) (set (netlist.inputs nl)) h' (l - 1)) h g)"
proof -
  let ?gs = "gates nl" and ?P = "set (netlist.inputs nl)"
  from run have loop: "assign_loop ?gs ?P 1 h = Inr h'"
    by (simp add: assign_levels_def)
  have "leveling_inv ?gs ?P ?gs ?P 1 h"
    using fresh by (intro leveling_inv_initial) (simp add: list_all_iff)
  from leveling_inv_final [OF this loop] obtain m
    where fin: "leveling_inv ?gs ?P [] (known_before (set ?gs) ?P h' m) m h'" ..
  then have "filter (\<lambda>g. level (h' g) = None) ?gs = []"
    by (simp add: leveling_inv_def)
  with g have "level (h' g) \<noteq> None"
    by (simp add: filter_empty_conv)
  then obtain l where l: "level (h' g) = Some l"
    by auto
  from fin g l have "1 \<le> l \<and> ready (known_before (set ?gs) ?P h' l) h' g \<and>
      (l = 1 \<or> \<not> ready (known_before (set ?gs) ?P h' (l - 1)) h' g)"
    by (simp add: leveling_inv_def)
  moreover have "ready K h' g = ready K h g" for K
    by (rule ready_fields) (rule assign_loop_fields [OF loop])
  ultimately show ?thesis
    using l by simp
qed

lemma known_before_initial_outputs:
  assumes "assign_levels nl h = Inr h'"
  shows "known_before (set (gates nl)) P h' l =
     P \<union> {output (h d) | d. d \<in> set (gates nl) \<and> (\<exists>ld. level (h' d) = Some ld \<and> ld < l)}"
proof -
  from assms have "assign_loop (gates nl) (set (netlist.inputs nl)) 1 h = Inr h'"
    by (simp add: assign_levels_def)
  then have "output (h' d) = output (h d)" for d
    by (rule assign_loop_fields)
  then show ?thesis
    by (simp add: known_before_def)
qed

lemma driver_level_less:
  assumes run: "assign_levels nl h = Inr h'"
    and fresh: "list_all (\<lambda>g. level (h g) = None) (gates nl)"
    and single: "distinct (map (\<lambda>g. output (h g)) (gates nl))"
    and undriven: "list_all (\<lambda>g. output (h g) \<notin> set (netlist.inputs nl)) (gates nl)"
    and g: "g \<in> set (gates nl)"
    and d: "d \<in> set (drivers nl h g)"
  shows "\<exists>l ld. level (h' g) = Some l \<and> level (h' d) = Some ld \<and> ld < l"
proof -
  let ?G = "set (gates nl)" and ?P = "set (netlist.inputs nl)"
  from assign_levels_char [OF run fresh g] obtain l
    where l: "level (h' g) = Some l"
      and rdy: "ready (?P \<union> {output (h d) | d. d \<in> ?G \<and> (\<exists>ld. level (h' d) = Some ld \<and> ld < l)}) h g"
    by (auto simp add: known_before_initial_outputs [OF run])
  from d have dG: "d \<in> ?G" and inp: "output (h d) \<in> set (gate.inputs (h g))"
    by (simp_all add: drivers_def)
  from undriven dG have "output (h d) \<notin> ?P"
    by (simp add: list_all_iff)
  moreover from rdy inp
  have "output (h d) \<in> ?P \<union> {output (h d) | d. d \<in> ?G \<and> (\<exists>ld. level (h' d) = Some ld \<and> ld < l)}"
    by (simp add: ready_def list_all_iff)
  ultimately obtain d' ld where d': "d' \<in> ?G" "output (h d) = output (h d')"
      "level (h' d') = Some ld" "ld < l"
    by auto
  from single dG d'(1,2) have "d = d'"
    by (auto simp add: distinct_map inj_on_def)
  with l d'(3,4) show ?thesis
    by auto
qed

text \<open>
  C1, as amended. On a netlist whose gates are all unleveled (as the parser produces
  them), whose gate outputs are pairwise distinct and none of them a primary input, a
  successful run of the leveler gives every gate \<open>g\<close> a level \<open>l \<ge> 1\<close> that is greater
  than the level of every gate driving one of its inputs; \<open>l\<close> is one more than the
  greatest level of these drivers when there is one, and 1 when all inputs of \<open>g\<close> are
  primary inputs; one of the two cases always applies.
\<close>

theorem assign_levels_driver_levels:
  assumes run: "assign_levels nl h = Inr h'"
    and fresh: "list_all (\<lambda>g. level (h g) = None) (gates nl)"
    and single: "distinct (map (\<lambda>g. output (h g)) (gates nl))"
    and undriven: "list_all (\<lambda>g. output (h g) \<notin> set (netlist.inputs nl)) (gates nl)"
    and g: "g \<in> set (gates nl)"
  shows "\<exists>l. level (h' g) = Some l \<and> 1 \<le> l \<and>
     (\<forall>d \<in> set (drivers nl h g). \<exists>ld. level (h' d) = Some ld \<and> ld < l) \<and>
     (drivers nl h g \<noteq> [] \<longrightarrow>
        l = 1 + Max {ld. \<exists>d \<in> set (drivers nl h g). level (h' d) = Some ld}) \<and>
     (set (gate.inputs (h g)) \<subseteq> set (netlist.inputs nl) \<longrightarrow> l = 1) \<and>
     (drivers nl h g \<noteq> [] \<or> set (gate.inputs (h g)) \<subseteq> set (netlist.inputs nl))"
proof -
  let ?G = "set (gates nl)" and ?P = "set (netlist.inputs nl)"
  let ?K = "\<lambda>l. ?P \<union> {output (h d) | d. d \<in> ?G \<and> (\<exists>ld. level (h' d) = Some ld \<and> ld < l)}"
  let ?D = "set (drivers nl h g)"
  let ?S = "{ld. \<exists>d \<in> ?D. level (h' d) = Some ld}"
  from assign_levels_char [OF run fresh g] obtain l
    where l: "level (h' g) = Some l" and l1: "1 \<le> l"
      and rdy: "ready (?K l) h g"
      and minimal: "l = 1 \<or> \<not> ready (?K (l - 1)) h g"
    by (auto simp add: known_before_initial_outputs [OF run])
  have inj: "d = d'" if "d \<in> ?G" "d' \<in> ?G" "output (h d) = output (h d')" for d d'
    using single that by (auto simp add: distinct_map inj_on_def)
  have notP: "output (h d) \<notin> ?P" if "d \<in> ?G" for d
    using undriven that by (simp add: list_all_iff)
  have all_ge1: "1 \<le> ld" if "d \<in> ?G" "level (h' d) = Some ld" for d ld
    using assign_levels_char [OF run fresh that(1)] that(2) by auto
  have lower: "\<exists>ld. level (h' d) = Some ld \<and> ld < l" if d: "d \<in> ?D" for d
    using driver_level_less [OF run fresh single undriven g d] l by auto
  have exhaust: "?D \<noteq> {} \<or> set (gate.inputs (h g)) \<subseteq> ?P"
  proof (rule disjCI)
    assume "\<not> set (gate.inputs (h g)) \<subseteq> ?P"
    then obtain i where i: "i \<in> set (gate.inputs (h g))" "i \<notin> ?P"
      by auto
    with rdy have "i \<in> ?K l"
      by (auto simp add: ready_def list_all_iff)
    with i(2) obtain d where "d \<in> ?G" "i = output (h d)"
      by auto
    with i(1) have "d \<in> ?D"
      by (simp add: drivers_def)
    then show "?D \<noteq> {}"
      by auto
  qed
  have prim: "l = 1" if sub: "set (gate.inputs (h g)) \<subseteq> ?P"
  proof (rule ccontr)
    assume "l \<noteq> 1"
    with minimal have "\<not> ready (?K (l - 1)) h g"
      by simp
    moreover from sub have "ready (?K (l - 1)) h g"
      by (auto simp add: ready_def list_all_iff)
    ultimately show False
      by simp
  qed
  have maxi: "l = 1 + Max ?S" if ne: "?D \<noteq> {}"
  proof -
    have fin: "finite ?S"
    proof (rule finite_subset)
      show "?S \<subseteq> (\<lambda>d. the (level (h' d))) ` ?D"
        by force
      show "finite ((\<lambda>d. the (level (h' d))) ` ?D)"
        by simp
    qed
    from ne obtain d0 where d0: "d0 \<in> ?D"
      by (cases "drivers nl h g") auto
    from lower [OF d0] d0 have Sne: "?S \<noteq> {}"
      by auto
    have upper: "ld \<le> l - 1" if "ld \<in> ?S" for ld
      using that lower by force
    have "l \<noteq> 1"
    proof
      assume "l = 1"
      from lower [OF d0] obtain ld0 where ld0: "level (h' d0) = Some ld0" "ld0 < l"
        by auto
      from d0 have "d0 \<in> ?G"
        by (simp add: drivers_def)
      from all_ge1 [OF this ld0(1)] ld0(2) \<open>l = 1\<close> show False
        by simp
    qed
    with minimal have "\<not> ready (?K (l - 1)) h g"
      by simp
    then obtain i where i: "i \<in> set (gate.inputs (h g))" "i \<notin> ?K (l - 1)"
      by (auto simp add: ready_def list_all_iff)
    from rdy i(1) have "i \<in> ?K l"
      by (simp add: ready_def list_all_iff)
    with i(2) obtain d ld where d: "d \<in> ?G" "i = output (h d)" "level (h' d) = Some ld" "ld < l"
      by auto
    with i(2) have "\<not> ld < l - 1"
      by auto
    with d(4) have "ld = l - 1"
      by simp
    moreover from d(1,2) i(1) have "d \<in> ?D"
      by (simp add: drivers_def)
    ultimately have "l - 1 \<in> ?S"
      using d(3) by auto
    with fin upper have "Max ?S = l - 1"
      by (intro Max_eqI) auto
    then show ?thesis
      by simp
  qed
  show ?thesis
    using l l1 lower maxi prim exhaust by (intro exI [of _ l]) auto
qed


text \<open>
  On c17 the gate at address 4 (\<^verbatim>\<open>NAND2_5\<close>) is driven by the gates at 0 and 2, of levels
  1 and 2, and gets level 3.
\<close>

theorem assign_levels_driver_levels_witness:
  "assign_levels c17_netlist c17_heap = Inr (leveled c17_netlist c17_heap) \<and>
   list_all (\<lambda>g. level (c17_heap g) = None) (gates c17_netlist) \<and>
   distinct (map (\<lambda>g. output (c17_heap g)) (gates c17_netlist)) \<and>
   list_all (\<lambda>g. output (c17_heap g) \<notin> set (netlist.inputs c17_netlist)) (gates c17_netlist) \<and>
   4 \<in> set (gates c17_netlist) \<and>
   drivers c17_netlist c17_heap 4 = [0, 2] \<and>
   map (\<lambda>g. level (leveled c17_netlist c17_heap g)) [0, 2, 4] = [Some 1, Some 2, Some 3]"
proof -
  have fresh: "list_all (\<lambda>g. level (c17_heap g) = None) (gates c17_netlist)"
    and single: "distinct (map (\<lambda>g. output (c17_heap g)) (gates c17_netlist))"
    and undriven: "list_all (\<lambda>g. output (c17_heap g) \<notin> set (netlist.inputs c17_netlist))
      (gates c17_netlist)"
    and g: "4 \<in> set (gates c17_netlist)"
    by code_simp+
  have concrete: "drivers c17_netlist c17_heap 4 = [0, 2] \<and>
      map (\<lambda>g. level (leveled c17_netlist c17_heap g)) [0, 2, 4] = [Some 1, Some 2, Some 3]"
    by code_simp
  from assign_levels_driver_levels [OF c17_run fresh single undriven g]
  obtain l where "level (leveled c17_netlist c17_heap 4) = Some l" and "1 \<le> l"
    by blast
  with concrete show ?thesis
    using c17_run fresh single undriven g by simp
qed

text \<open>
  C1 as stated fails on two netlists the parser produces. In the first, gate 1 drives
  the primary input \<open>a\<close> that gate 0 reads: gate 0 gets level 1, its driver level 2. In
  the second, the signal \<open>s\<close> has two drivers, gates 0 and 2: gate 3 reads \<open>s\<close> and gets
  level 2, the level of its driver gate 2. It also fails when a gate holds a level
  before the run: gate 1 of the third netlist keeps its level 7, and its only driver
  gets level 1.
\<close>

theorem assign_levels_driver_levels_counterexample:
  "(fst (parse_netlist_text ''input a, b; and g1 (x, a, b); not g2 (a, x);'') =
      driven_input_netlist \<and>
    map (snd (parse_netlist_text ''input a, b; and g1 (x, a, b); not g2 (a, x);''))
      (gates driven_input_netlist) = map driven_input_heap (gates driven_input_netlist) \<and>
    list_all (\<lambda>g. level (driven_input_heap g) = None) (gates driven_input_netlist) \<and>
    \<not> isl (assign_levels driven_input_netlist driven_input_heap) \<and>
    drivers driven_input_netlist driven_input_heap 0 = [1] \<and>
    map (\<lambda>g. level (leveled driven_input_netlist driven_input_heap g)) [0, 1] =
      [Some 1, Some 2]) \<and>
   (fst (parse_netlist_text
      ''input a, b; and g1 (s, a, b); and g2 (t, a, b); and g3 (s, t, a); not g4 (u, s);'') =
      two_drivers_netlist \<and>
    map (snd (parse_netlist_text
      ''input a, b; and g1 (s, a, b); and g2 (t, a, b); and g3 (s, t, a); not g4 (u, s);''))
      (gates two_drivers_netlist) = map two_drivers_heap (gates two_drivers_netlist) \<and>
    list_all (\<lambda>g. level (two_drivers_heap g) = None) (gates two_drivers_netlist) \<and>
    \<not> isl (assign_levels two_drivers_netlist two_drivers_heap) \<and>
    drivers two_drivers_netlist two_drivers_heap 3 = [0, 2] \<and>
    map (\<lambda>g. level (leveled two_drivers_netlist two_drivers_heap g)) [0, 2, 3] =
      [Some 1, Some 2, Some 2]) \<and>
   (map (\<lambda>g. level (stale_level_heap g)) (gates stale_level_netlist) = [None, Some 7] \<and>
    \<not> isl (assign_levels stale_level_netlist stale_level_heap) \<and>
    drivers stale_level_netlist stale_level_heap 1 = [0] \<and>
    map (\<lambda>g. level (leveled stale_level_netlist stale_level_heap g)) [0, 1] =
      [Some 1, Some 7])"
proof -
  have "list_all (\<lambda>g. level (driven_input_heap g) = None) (gates driven_input_netlist) \<and>
      \<not> isl (assign_levels driven_input_netlist driven_input_heap) \<and>
      drivers driven_input_netlist driven_input_heap 0 = [1] \<and>
      map (\<lambda>g. level (leveled driven_input_netlist driven_input_heap g)) [0, 1] =
        [Some 1, Some 2]"
    by code_simp
  moreover have "list_all (\<lambda>g. level (two_drivers_heap g) = None) (gates two_drivers_netlist) \<and>
      \<not> isl (assign_levels two_drivers_netlist two_drivers_heap) \<and>
      drivers two_drivers_netlist two_drivers_heap 3 = [0, 2] \<and>
      map (\<lambda>g. level (leveled two_drivers_netlist two_drivers_heap g)) [0, 2, 3] =
        [Some 1, Some 2, Some 2]"
    by code_simp
  moreover have "map (\<lambda>g. level (stale_level_heap g)) (gates stale_level_netlist) =
        [None, Some 7] \<and>
      \<not> isl (assign_levels stale_level_netlist stale_level_heap) \<and>
      drivers stale_level_netlist stale_level_heap 1 = [0] \<and>
      map (\<lambda>g. level (leveled stale_level_netlist stale_level_heap g)) [0, 1] =
        [Some 1, Some 7]"
    by code_simp
  ultimately show ?thesis
    using driven_input_parsed two_drivers_parsed by (simp only: simp_thms)
qed

lemma depends_on_level_less:
  assumes run: "assign_levels nl h = Inr h'"
    and fresh: "list_all (\<lambda>g. level (h g) = None) (gates nl)"
    and single: "distinct (map (\<lambda>g. output (h g)) (gates nl))"
    and undriven: "list_all (\<lambda>g. output (h g) \<notin> set (netlist.inputs nl)) (gates nl)"
    and dep: "(g, d) \<in> (depends_on nl h)\<^sup>+"
  shows "the (level (h' d)) < the (level (h' g))"
  using dep
proof (induction rule: trancl_induct)
  case (base d)
  then have "g \<in> set (gates nl)" and "d \<in> set (drivers nl h g)"
    by (simp_all add: depends_on_def)
  from driver_level_less [OF run fresh single undriven this] show ?case
    by auto
next
  case (step d e)
  from step.hyps(2) have "d \<in> set (gates nl)" and "e \<in> set (drivers nl h d)"
    by (simp_all add: depends_on_def)
  from driver_level_less [OF run fresh single undriven this] step.IH show ?case
    by auto
qed

text \<open>
  C5, as amended. The leveler returns on every netlist and store: either it succeeds and
  every gate of the netlist has a level, or it raises the \<^verbatim>\<open>ValueError\<close> of line 103
  (no other error is possible). In any state of the loop, a round in which gates remain
  and none of them has all its inputs known raises that error. On a netlist whose gates
  are all unleveled, whose gate outputs are pairwise distinct and none of them a primary
  input, a gate that reads its own output, directly or through other gates, makes the
  leveler raise that error.
\<close>

theorem assign_levels_terminates:
  "((\<exists>h'. assign_levels nl h = Inr h' \<and> list_all (\<lambda>g. level (h' g) \<noteq> None) (gates nl)) \<or>
    assign_levels nl h = Inl ValueError_cannot_resolve) \<and>
   (remaining_gates \<noteq> [] \<and> list_all (\<lambda>g. \<not> ready known_signals h g) remaining_gates \<longrightarrow>
    assign_loop remaining_gates known_signals level_num h = Inl ValueError_cannot_resolve) \<and>
   (list_all (\<lambda>g. level (h g) = None) (gates nl) \<and>
    distinct (map (\<lambda>g. output (h g)) (gates nl)) \<and>
    list_all (\<lambda>g. output (h g) \<notin> set (netlist.inputs nl)) (gates nl) \<and>
    (\<exists>g. (g, g) \<in> (depends_on nl h)\<^sup>+) \<longrightarrow>
    assign_levels nl h = Inl ValueError_cannot_resolve)"
proof -
  have stuck: "assign_loop remaining_gates known_signals level_num h = Inl ValueError_cannot_resolve"
    if "remaining_gates \<noteq> [] \<and> list_all (\<lambda>g. \<not> ready known_signals h g) remaining_gates"
  proof -
    from that have "filter (ready known_signals h) remaining_gates = []"
      by (simp add: filter_empty_conv list_all_iff)
    with that show ?thesis
      by (simp add: assign_loop_stuck)
  qed
  have "((\<exists>h'. assign_levels nl h = Inr h' \<and> list_all (\<lambda>g. level (h' g) \<noteq> None) (gates nl)) \<or>
      assign_levels nl h = Inl ValueError_cannot_resolve) \<and>
    (list_all (\<lambda>g. level (h g) = None) (gates nl) \<and>
      distinct (map (\<lambda>g. output (h g)) (gates nl)) \<and>
      list_all (\<lambda>g. output (h g) \<notin> set (netlist.inputs nl)) (gates nl) \<and>
      (\<exists>g. (g, g) \<in> (depends_on nl h)\<^sup>+) \<longrightarrow>
      assign_levels nl h = Inl ValueError_cannot_resolve)"
  proof (cases "assign_levels nl h")
    case (Inl e)
    then have "e = ValueError_cannot_resolve"
      unfolding assign_levels_def by (rule assign_loop_error)
    with Inl show ?thesis
      by simp
  next
    case (Inr h')
    then have "level (h' g) \<noteq> None" if "g \<in> set (gates nl)" for g
      unfolding assign_levels_def using that by (intro assign_loop_leveled) auto
    then have all: "list_all (\<lambda>g. level (h' g) \<noteq> None) (gates nl)"
      by (simp add: list_all_iff)
    have "\<not> (list_all (\<lambda>g. level (h g) = None) (gates nl) \<and>
        distinct (map (\<lambda>g. output (h g)) (gates nl)) \<and>
        list_all (\<lambda>g. output (h g) \<notin> set (netlist.inputs nl)) (gates nl) \<and>
        (\<exists>g. (g, g) \<in> (depends_on nl h)\<^sup>+))"
    proof
      assume "list_all (\<lambda>g. level (h g) = None) (gates nl) \<and>
        distinct (map (\<lambda>g. output (h g)) (gates nl)) \<and>
        list_all (\<lambda>g. output (h g) \<notin> set (netlist.inputs nl)) (gates nl) \<and>
        (\<exists>g. (g, g) \<in> (depends_on nl h)\<^sup>+)"
      then obtain g where fresh: "list_all (\<lambda>g. level (h g) = None) (gates nl)"
        and single: "distinct (map (\<lambda>g. output (h g)) (gates nl))"
        and undriven: "list_all (\<lambda>g. output (h g) \<notin> set (netlist.inputs nl)) (gates nl)"
        and cyc: "(g, g) \<in> (depends_on nl h)\<^sup>+"
        by auto
      from depends_on_level_less [OF Inr fresh single undriven cyc] show False
        by simp
    qed
    with Inr all show ?thesis
      by simp
  qed
  with stuck show ?thesis
    by blast
qed

text \<open>Two gates that read each other's output: the leveler raises.\<close>

theorem assign_levels_terminates_witness:
  "(gates cycle_netlist \<noteq> [] \<and>
    list_all (\<lambda>g. \<not> ready (set (netlist.inputs cycle_netlist)) cycle_heap g) (gates cycle_netlist) \<and>
    assign_loop (gates cycle_netlist) (set (netlist.inputs cycle_netlist)) 1 cycle_heap =
      Inl ValueError_cannot_resolve) \<and>
   (list_all (\<lambda>g. level (cycle_heap g) = None) (gates cycle_netlist) \<and>
    distinct (map (\<lambda>g. output (cycle_heap g)) (gates cycle_netlist)) \<and>
    list_all (\<lambda>g. output (cycle_heap g) \<notin> set (netlist.inputs cycle_netlist)) (gates cycle_netlist) \<and>
    (0, 0) \<in> (depends_on cycle_netlist cycle_heap)\<^sup>+ \<and>
    assign_levels cycle_netlist cycle_heap = Inl ValueError_cannot_resolve)"
proof -
  have round: "gates cycle_netlist \<noteq> [] \<and>
      list_all (\<lambda>g. \<not> ready (set (netlist.inputs cycle_netlist)) cycle_heap g) (gates cycle_netlist)"
    by code_simp
  have hyps: "list_all (\<lambda>g. level (cycle_heap g) = None) (gates cycle_netlist) \<and>
      distinct (map (\<lambda>g. output (cycle_heap g)) (gates cycle_netlist)) \<and>
      list_all (\<lambda>g. output (cycle_heap g) \<notin> set (netlist.inputs cycle_netlist)) (gates cycle_netlist)"
    by code_simp
  have "0 \<in> set (gates cycle_netlist) \<and> 1 \<in> set (drivers cycle_netlist cycle_heap 0) \<and>
      1 \<in> set (gates cycle_netlist) \<and> 0 \<in> set (drivers cycle_netlist cycle_heap 1)"
    by code_simp
  then have "(0, 1) \<in> depends_on cycle_netlist cycle_heap"
    and "(1, 0) \<in> depends_on cycle_netlist cycle_heap"
    by (simp_all add: depends_on_def)
  then have cyc: "(0, 0) \<in> (depends_on cycle_netlist cycle_heap)\<^sup>+"
    by (rule trancl_trans [OF r_into_trancl r_into_trancl])
  then have ex: "\<exists>g. (g, g) \<in> (depends_on cycle_netlist cycle_heap)\<^sup>+"
    by (rule exI)
  note inst = assign_levels_terminates [of cycle_netlist cycle_heap "gates cycle_netlist"
      "set (netlist.inputs cycle_netlist)" 1]
  from inst round have "assign_loop (gates cycle_netlist) (set (netlist.inputs cycle_netlist)) 1
      cycle_heap = Inl ValueError_cannot_resolve"
    by blast
  moreover from inst hyps ex
  have "assign_levels cycle_netlist cycle_heap = Inl ValueError_cannot_resolve"
    by blast
  ultimately show ?thesis
    using round hyps cyc by simp
qed

text \<open>
  C5 as stated fails on \<^verbatim>\<open>input a; not g1 (a, a);\<close>: the gate reads its own output, which
  is also a primary input, and the leveler succeeds and gives it level 1. It fails on
  \<^verbatim>\<open>input a; not g1 (s, a); and g2 (s, s, a);\<close> as well, where the second gate reads the
  signal \<open>s\<close> that it and the first gate drive, and on a cycle of two gates that hold
  levels before the run: the leveler drops them from its work list after the first round.
\<close>

theorem assign_levels_terminates_counterexample:
  "(fst (parse_netlist_text ''input a; not g1 (a, a);'') = self_input_netlist \<and>
    map (snd (parse_netlist_text ''input a; not g1 (a, a);'')) (gates self_input_netlist) =
      map self_input_heap (gates self_input_netlist) \<and>
    list_all (\<lambda>g. level (self_input_heap g) = None) (gates self_input_netlist) \<and>
    (0, 0) \<in> (depends_on self_input_netlist self_input_heap)\<^sup>+ \<and>
    assign_levels self_input_netlist self_input_heap =
      Inr (leveled self_input_netlist self_input_heap) \<and>
    level (leveled self_input_netlist self_input_heap 0) = Some 1) \<and>
   (fst (parse_netlist_text ''input a; not g1 (s, a); and g2 (s, s, a);'') =
      second_driver_netlist \<and>
    map (snd (parse_netlist_text ''input a; not g1 (s, a); and g2 (s, s, a);''))
      (gates second_driver_netlist) = map second_driver_heap (gates second_driver_netlist) \<and>
    list_all (\<lambda>g. level (second_driver_heap g) = None) (gates second_driver_netlist) \<and>
    (1, 1) \<in> (depends_on second_driver_netlist second_driver_heap)\<^sup>+ \<and>
    assign_levels second_driver_netlist second_driver_heap =
      Inr (leveled second_driver_netlist second_driver_heap) \<and>
    map (\<lambda>g. level (leveled second_driver_netlist second_driver_heap g)) [0, 1] =
      [Some 1, Some 2]) \<and>
   (map (\<lambda>g. level (stale_cycle_heap g)) (gates stale_cycle_netlist) = [None, Some 5, Some 6] \<and>
    (1, 1) \<in> (depends_on stale_cycle_netlist stale_cycle_heap)\<^sup>+ \<and>
    assign_levels stale_cycle_netlist stale_cycle_heap =
      Inr (leveled stale_cycle_netlist stale_cycle_heap) \<and>
    map (\<lambda>g. level (leveled stale_cycle_netlist stale_cycle_heap g)) [0, 1, 2] =
      [Some 1, Some 5, Some 6])"
proof -
  have "0 \<in> set (gates self_input_netlist) \<and>
      0 \<in> set (drivers self_input_netlist self_input_heap 0)"
    by code_simp
  then have "(0, 0) \<in> depends_on self_input_netlist self_input_heap"
    by (simp add: depends_on_def)
  then have self: "(0, 0) \<in> (depends_on self_input_netlist self_input_heap)\<^sup>+"
    by (rule r_into_trancl)
  have "\<not> isl (assign_levels self_input_netlist self_input_heap)"
    by code_simp
  then have self_run: "assign_levels self_input_netlist self_input_heap =
      Inr (leveled self_input_netlist self_input_heap)"
    by (rule leveled_run)
  have self_level: "list_all (\<lambda>g. level (self_input_heap g) = None) (gates self_input_netlist) \<and>
      level (leveled self_input_netlist self_input_heap 0) = Some 1"
    by code_simp
  have "1 \<in> set (gates second_driver_netlist) \<and>
      1 \<in> set (drivers second_driver_netlist second_driver_heap 1)"
    by code_simp
  then have "(1, 1) \<in> depends_on second_driver_netlist second_driver_heap"
    by (simp add: depends_on_def)
  then have second: "(1, 1) \<in> (depends_on second_driver_netlist second_driver_heap)\<^sup>+"
    by (rule r_into_trancl)
  have "\<not> isl (assign_levels second_driver_netlist second_driver_heap)"
    by code_simp
  then have second_run: "assign_levels second_driver_netlist second_driver_heap =
      Inr (leveled second_driver_netlist second_driver_heap)"
    by (rule leveled_run)
  have second_level:
    "list_all (\<lambda>g. level (second_driver_heap g) = None) (gates second_driver_netlist) \<and>
     map (\<lambda>g. level (leveled second_driver_netlist second_driver_heap g)) [0, 1] =
       [Some 1, Some 2]"
    by code_simp
  have "1 \<in> set (gates stale_cycle_netlist) \<and>
      2 \<in> set (drivers stale_cycle_netlist stale_cycle_heap 1) \<and>
      2 \<in> set (gates stale_cycle_netlist) \<and>
      1 \<in> set (drivers stale_cycle_netlist stale_cycle_heap 2)"
    by code_simp
  then have "(1, 2) \<in> depends_on stale_cycle_netlist stale_cycle_heap"
    and "(2, 1) \<in> depends_on stale_cycle_netlist stale_cycle_heap"
    by (simp_all add: depends_on_def)
  then have stale: "(1, 1) \<in> (depends_on stale_cycle_netlist stale_cycle_heap)\<^sup>+"
    by (rule trancl_trans [OF r_into_trancl r_into_trancl])
  have "\<not> isl (assign_levels stale_cycle_netlist stale_cycle_heap)"
    by code_simp
  then have stale_run: "assign_levels stale_cycle_netlist stale_cycle_heap =
      Inr (leveled stale_cycle_netlist stale_cycle_heap)"
    by (rule leveled_run)
  have stale_level:
    "map (\<lambda>g. level (stale_cycle_heap g)) (gates stale_cycle_netlist) = [None, Some 5, Some 6] \<and>
     map (\<lambda>g. level (leveled stale_cycle_netlist stale_cycle_heap g)) [0, 1, 2] =
       [Some 1, Some 5, Some 6]"
    by code_simp
  from self self_run self_level second second_run second_level stale stale_run stale_level
  show ?thesis
    using self_input_parsed second_driver_parsed by (simp only: simp_thms)
qed

section \<open>The simulator: what a run reads, undriven outputs, the example\<close>

lemma dict_refs_Nil [simp]: "dict_refs [] = {}"
  by (simp add: dict_refs_def)

lemma dict_refs_Cons [simp]: "dict_refs ((k, vs) # d) = set vs \<union> dict_refs d"
  by (simp add: dict_refs_def)

lemma dict_refs_setdefault_append:
  "dict_refs (setdefault_append k v d) = insert v (dict_refs d)"
  by (induction d) (auto split: if_splits)

lemma dict_refs_group_by_level:
  "dict_refs (group_by_level h gs d) = set gs \<union> dict_refs d"
  by (induction gs arbitrary: d) (auto simp add: dict_refs_setdefault_append)

lemma dict_refs_get:
  "set (case map_of d k of None \<Rightarrow> [] | Some rs \<Rightarrow> rs) \<subseteq> dict_refs d"
proof (cases "map_of d k")
  case None
  then show ?thesis by simp
next
  case (Some rs)
  then have "(k, rs) \<in> set d"
    by (rule map_of_SomeD)
  then have "set rs \<subseteq> dict_refs d"
    by (force simp add: dict_refs_def)
  with Some show ?thesis by simp
qed

lemma evaluate_gate_cong:
  assumes "\<And>x. x \<in> set (gate.inputs g) \<Longrightarrow> sv1 x = sv2 x"
  shows "evaluate_gate g sv1 = evaluate_gate g sv2"
proof -
  have "map sv1 (gate.inputs g) = map sv2 (gate.inputs g)"
    using assms by simp
  then show ?thesis
    by (simp only: evaluate_gate_def)
qed

lemma eval_level_agree:
  assumes "\<And>r x. r \<in> set rs \<Longrightarrow> x \<in> set (gate.inputs (h r)) \<Longrightarrow> x \<in> R"
    and "\<And>x. x \<in> R \<Longrightarrow> sv1 x = sv2 x"
  shows "(\<exists>e. eval_level h rs sv1 = Inl e \<and> eval_level h rs sv2 = Inl e) \<or>
     (\<exists>a b. eval_level h rs sv1 = Inr a \<and> eval_level h rs sv2 = Inr b \<and> (\<forall>x \<in> R. a x = b x))"
  using assms
proof (induction rs arbitrary: sv1 sv2)
  case Nil
  then show ?case by simp
next
  case (Cons r rs)
  have same: "evaluate_gate (h r) sv1 = evaluate_gate (h r) sv2"
  proof (rule evaluate_gate_cong)
    fix x
    assume "x \<in> set (gate.inputs (h r))"
    then have "x \<in> R"
      by (intro Cons.prems(1) [of r]) simp_all
    then show "sv1 x = sv2 x"
      by (rule Cons.prems(2))
  qed
  show ?case
  proof (cases "evaluate_gate (h r) sv2")
    case (Inl e)
    with same show ?thesis by simp
  next
    case (Inr v)
    have "(\<exists>e. eval_level h rs (sv1(output (h r) \<mapsto> v)) = Inl e \<and>
             eval_level h rs (sv2(output (h r) \<mapsto> v)) = Inl e) \<or>
        (\<exists>a b. eval_level h rs (sv1(output (h r) \<mapsto> v)) = Inr a \<and>
             eval_level h rs (sv2(output (h r) \<mapsto> v)) = Inr b \<and> (\<forall>x \<in> R. a x = b x))"
    proof (rule Cons.IH)
      fix r' x
      assume "r' \<in> set rs" and "x \<in> set (gate.inputs (h r'))"
      then show "x \<in> R"
        by (intro Cons.prems(1) [of r']) simp_all
    next
      fix x
      assume "x \<in> R"
      then show "(sv1(output (h r) \<mapsto> v)) x = (sv2(output (h r) \<mapsto> v)) x"
        by (simp add: Cons.prems(2))
    qed
    with same Inr show ?thesis by simp
  qed
qed

lemma eval_levels_agree:
  assumes "\<And>r x. r \<in> dict_refs d \<Longrightarrow> x \<in> set (gate.inputs (h r)) \<Longrightarrow> x \<in> R"
    and "\<And>x. x \<in> R \<Longrightarrow> sv1 x = sv2 x"
  shows "(\<exists>e. eval_levels h d lvls sv1 = Inl e \<and> eval_levels h d lvls sv2 = Inl e) \<or>
     (\<exists>a b. eval_levels h d lvls sv1 = Inr a \<and> eval_levels h d lvls sv2 = Inr b \<and>
        (\<forall>x \<in> R. a x = b x))"
  using assms(2)
proof (induction lvls arbitrary: sv1 sv2)
  case Nil
  then show ?case by simp
next
  case (Cons lvl lvls)
  let ?gs = "case map_of d (Some lvl) of None \<Rightarrow> [] | Some gs \<Rightarrow> gs"
  have "(\<exists>e. eval_level h ?gs sv1 = Inl e \<and> eval_level h ?gs sv2 = Inl e) \<or>
     (\<exists>a b. eval_level h ?gs sv1 = Inr a \<and> eval_level h ?gs sv2 = Inr b \<and> (\<forall>x \<in> R. a x = b x))"
  proof (rule eval_level_agree)
    fix r x
    assume "r \<in> set ?gs" and x: "x \<in> set (gate.inputs (h r))"
    then have "r \<in> dict_refs d"
      using dict_refs_get [of d "Some lvl"] by auto
    from this x show "x \<in> R"
      by (rule assms(1))
  qed (rule Cons.prems)
  then consider (err) e where "eval_level h ?gs sv1 = Inl e" "eval_level h ?gs sv2 = Inl e"
    | (ok) a b where "eval_level h ?gs sv1 = Inr a" "eval_level h ?gs sv2 = Inr b"
        "\<forall>x \<in> R. a x = b x"
    by blast
  then show ?case
  proof cases
    case err
    then show ?thesis by simp
  next
    case ok
    from ok(3) have "(\<exists>e. eval_levels h d lvls a = Inl e \<and> eval_levels h d lvls b = Inl e) \<or>
       (\<exists>a' b'. eval_levels h d lvls a = Inr a' \<and> eval_levels h d lvls b = Inr b' \<and>
          (\<forall>x \<in> R. a' x = b' x))"
      by (intro Cons.IH) simp
    with ok(1,2) show ?thesis by simp
  qed
qed

lemma simulate_agree:
  assumes "\<And>x. x \<in> set (outputs nl) \<or> (\<exists>g \<in> set (gates nl). x \<in> set (gate.inputs (h g))) \<Longrightarrow>
      iv1 x = iv2 x"
  shows "simulate nl h iv1 = simulate nl h iv2"
proof -
  let ?R = "{x. x \<in> set (outputs nl) \<or> (\<exists>g \<in> set (gates nl). x \<in> set (gate.inputs (h g)))}"
  let ?d = "group_by_level h (gates nl) []"
  have refs: "dict_refs ?d = set (gates nl)"
    by (simp add: dict_refs_group_by_level)
  have agree: "(\<exists>e. eval_levels h ?d lvls iv1 = Inl e \<and> eval_levels h ?d lvls iv2 = Inl e) \<or>
     (\<exists>a b. eval_levels h ?d lvls iv1 = Inr a \<and> eval_levels h ?d lvls iv2 = Inr b \<and>
        (\<forall>x \<in> ?R. a x = b x))" for lvls
  proof (rule eval_levels_agree)
    fix r x
    assume "r \<in> dict_refs ?d" and "x \<in> set (gate.inputs (h r))"
    then show "x \<in> ?R"
      by (auto simp add: refs)
  next
    fix x
    assume "x \<in> ?R"
    then show "iv1 x = iv2 x"
      using assms by simp
  qed
  have out: "fold (\<lambda>out d. dict_set out (a out) d) (outputs nl) [] =
      fold (\<lambda>out d. dict_set out (b out) d) (outputs nl) []"
    if "\<forall>x \<in> ?R. a x = b x" for a b :: "string \<rightharpoonup> int"
    using that by (intro fold_cong) simp_all
  show ?thesis
  proof (cases "py_max (map fst ?d)")
    case (Inl e)
    then show ?thesis
      by (simp add: simulate_def)
  next
    case (Inr m)
    show ?thesis
    proof (cases m)
      case None
      with Inr show ?thesis
        by (simp add: simulate_def)
    next
      case (Some max_level)
      from agree [of "[1..max_level]"]
      consider (err) e where "eval_levels h ?d [1..max_level] iv1 = Inl e"
          "eval_levels h ?d [1..max_level] iv2 = Inl e"
        | (ok) a b where "eval_levels h ?d [1..max_level] iv1 = Inr a"
          "eval_levels h ?d [1..max_level] iv2 = Inr b" "\<forall>x \<in> ?R. a x = b x"
        by blast
      then show ?thesis
      proof cases
        case err
        with Inr Some show ?thesis
          by (simp add: simulate_def)
      next
        case ok
        from ok(3) have "fold (\<lambda>out d. dict_set out (a out) d) (outputs nl) [] =
            fold (\<lambda>out d. dict_set out (b out) d) (outputs nl) []"
          by (rule out)
        with ok(1,2) Inr Some show ?thesis
          by (simp add: simulate_def)
      qed
    qed
  qed
qed



lemma eval_level_untouched:
  assumes "eval_level h rs sv = Inr sv'" and "\<And>r. r \<in> set rs \<Longrightarrow> output (h r) \<noteq> x"
  shows "sv' x = sv x"
  using assms
proof (induction rs arbitrary: sv)
  case Nil
  then show ?case by simp
next
  case (Cons r rs)
  from Cons.prems(1) obtain v where v: "evaluate_gate (h r) sv = Inr v"
    and rest: "eval_level h rs (sv(output (h r) \<mapsto> v)) = Inr sv'"
    by (auto split: sum.splits)
  from rest have "sv' x = (sv(output (h r) \<mapsto> v)) x"
    by (rule Cons.IH) (simp add: Cons.prems(2))
  also have "\<dots> = sv x"
    using Cons.prems(2) [of r] by simp
  finally show ?case .
qed

lemma eval_levels_untouched:
  assumes "eval_levels h d lvls sv = Inr sv'" and "\<And>r. r \<in> dict_refs d \<Longrightarrow> output (h r) \<noteq> x"
  shows "sv' x = sv x"
  using assms(1)
proof (induction lvls arbitrary: sv)
  case Nil
  then show ?case by simp
next
  case (Cons lvl lvls)
  let ?gs = "case map_of d (Some lvl) of None \<Rightarrow> [] | Some gs \<Rightarrow> gs"
  from Cons.prems obtain sv1 where one: "eval_level h ?gs sv = Inr sv1"
    and rest: "eval_levels h d lvls sv1 = Inr sv'"
    by (auto split: sum.splits)
  from rest have "sv' x = sv1 x"
    by (rule Cons.IH)
  also from one have "sv1 x = sv x"
  proof (rule eval_level_untouched)
    fix r
    assume "r \<in> set ?gs"
    then have "r \<in> dict_refs d"
      using dict_refs_get [of d "Some lvl"] by auto
    then show "output (h r) \<noteq> x"
      by (rule assms(2))
  qed
  finally show ?case .
qed

lemma dict_get_setdefault_append:
  "dict_get (setdefault_append k v d) k' = (if k' = k then dict_get d k @ [v] else dict_get d k')"
  by (induction d) (auto simp add: dict_get_def)

lemma dict_get_group_by_level:
  "dict_get (group_by_level h gs d) k = dict_get d k @ filter (\<lambda>g. level (h g) = k) gs"
  by (induction gs arbitrary: d) (auto simp add: dict_get_setdefault_append)

lemma keys_setdefault_append:
  "fst ` set (setdefault_append k v d) = insert k (fst ` set d)"
  by (induction d) (force split: if_splits)+

lemma keys_group_by_level:
  "fst ` set (group_by_level h gs d) = fst ` set d \<union> (\<lambda>g. level (h g)) ` set gs"
proof (induction gs arbitrary: d)
  case Nil
  show ?case by simp
next
  case (Cons g gs)
  show ?case
    by (simp add: Cons.IH keys_setdefault_append)
qed



lemma max_from_Some:
  assumes "None \<notin> set ks"
  shows "\<exists>m. max_from (Some b) ks = Inr (Some m) \<and> b \<le> m \<and> (\<forall>l. Some l \<in> set ks \<longrightarrow> l \<le> m)"
  using assms
proof (induction ks arbitrary: b)
  case Nil
  then show ?case by simp
next
  case (Cons k ks)
  then obtain a where k: "k = Some a"
    by (cases k) auto
  from Cons.prems have "None \<notin> set ks"
    by simp
  from Cons.IH [OF this, of "if a > b then a else b"]
  obtain m where "max_from (Some (if a > b then a else b)) ks = Inr (Some m)"
    and "(if a > b then a else b) \<le> m" and "\<forall>l. Some l \<in> set ks \<longrightarrow> l \<le> m"
    by blast
  then show ?case
    by (intro exI [of _ m]) (auto simp add: k split: if_splits)
qed

lemma py_max_Some:
  assumes "ks \<noteq> []" and "None \<notin> set ks"
  shows "\<exists>m. py_max ks = Inr (Some m) \<and> (\<forall>l. Some l \<in> set ks \<longrightarrow> l \<le> m)"
proof -
  from assms obtain b ks' where ks: "ks = Some b # ks'"
    by (cases ks) (auto, metis option.exhaust)
  with assms(2) have "None \<notin> set ks'"
    by simp
  from max_from_Some [OF this, of b] show ?thesis
    by (auto simp add: ks)
qed

lemma evaluate_gate_reads:
  assumes "evaluate_gate g sv = Inr v"
  shows "set (gate.inputs g) \<subseteq> dom sv"
proof -
  from assms have "None \<notin> set (map sv (gate.inputs g))"
    by (auto simp add: evaluate_gate_def Let_def split: if_splits simp del: set_map)
  then show ?thesis
    by (auto simp add: dom_def) (metis image_eqI option.exhaust)
qed

lemma eval_level_reads:
  assumes "eval_level h rs sv = Inr sv'"
  shows "dom sv \<subseteq> dom sv' \<and> (\<forall>r \<in> set rs. set (gate.inputs (h r)) \<subseteq> dom sv')"
  using assms
proof (induction rs arbitrary: sv)
  case Nil
  then show ?case by simp
next
  case (Cons r rs)
  from Cons.prems obtain v where v: "evaluate_gate (h r) sv = Inr v"
    and rest: "eval_level h rs (sv(output (h r) \<mapsto> v)) = Inr sv'"
    by (auto split: sum.splits)
  have both: "dom (sv(output (h r) \<mapsto> v)) \<subseteq> dom sv' \<and>
      (\<forall>r \<in> set rs. set (gate.inputs (h r)) \<subseteq> dom sv')"
    using rest by (rule Cons.IH)
  then have others: "\<forall>r \<in> set rs. set (gate.inputs (h r)) \<subseteq> dom sv'"
    by (rule conjunct2)
  have "dom sv \<subseteq> dom (sv(output (h r) \<mapsto> v))"
    by auto
  with both have "dom sv \<subseteq> dom sv'"
    by blast
  moreover from evaluate_gate_reads [OF v] this have "set (gate.inputs (h r)) \<subseteq> dom sv'"
    by blast
  ultimately show ?case
    using others by simp
qed

lemma eval_levels_reads:
  assumes "eval_levels h d lvls sv = Inr sv'"
  shows "dom sv \<subseteq> dom sv' \<and>
     (\<forall>lvl \<in> set lvls. \<forall>r \<in> set (dict_get d (Some lvl)). set (gate.inputs (h r)) \<subseteq> dom sv')"
  using assms
proof (induction lvls arbitrary: sv)
  case Nil
  then show ?case by simp
next
  case (Cons lvl lvls)
  from Cons.prems obtain sv1 where one: "eval_level h (dict_get d (Some lvl)) sv = Inr sv1"
    and rest: "eval_levels h d lvls sv1 = Inr sv'"
    by (auto simp add: dict_get_def split: sum.splits)
  from eval_level_reads [OF one] have a: "dom sv \<subseteq> dom sv1"
    and b: "\<forall>r \<in> set (dict_get d (Some lvl)). set (gate.inputs (h r)) \<subseteq> dom sv1"
    by simp_all
  from Cons.IH [OF rest] have c: "dom sv1 \<subseteq> dom sv'"
    and e: "\<forall>lvl \<in> set lvls. \<forall>r \<in> set (dict_get d (Some lvl)). set (gate.inputs (h r)) \<subseteq> dom sv'"
    by simp_all
  from a c have "dom sv \<subseteq> dom sv'"
    by simp
  moreover from b c have "\<forall>r \<in> set (dict_get d (Some lvl)). set (gate.inputs (h r)) \<subseteq> dom sv'"
    by blast
  ultimately show ?case
    using e by simp
qed

lemma max_from_bound:
  assumes "max_from (Some b) ks = Inr (Some m)"
  shows "b \<le> m \<and> (\<forall>l. Some l \<in> set ks \<longrightarrow> l \<le> m)"
  using assms
proof (induction ks arbitrary: b)
  case Nil
  then show ?case by simp
next
  case (Cons k ks)
  from Cons.prems obtain a where k: "k = Some a"
    by (cases k) auto
  with Cons.prems have "max_from (Some (if a > b then a else b)) ks = Inr (Some m)"
    by (simp split: if_splits)
  from Cons.IH [OF this] show ?case
    by (auto simp add: k split: if_splits)
qed

lemma py_max_bound:
  assumes "py_max ks = Inr (Some m)" and "Some l \<in> set ks"
  shows "l \<le> m"
proof (cases ks)
  case Nil
  with assms show ?thesis by simp
next
  case (Cons k ks')
  show ?thesis
  proof (cases k)
    case None
    with Cons assms(1) have "ks' = []"
      by (cases ks') (simp_all split: option.splits)
    with Cons None assms show ?thesis
      by simp
  next
    case (Some b)
    with Cons assms(1) have "max_from (Some b) ks' = Inr (Some m)"
      by simp
    from max_from_bound [OF this] assms(2) Cons Some show ?thesis
      by auto
  qed
qed

lemma evaluate_gate_error:
  assumes "evaluate_gate g sv = Inl e"
  shows "e = ValueError_missing_input (name g) \<or>
     (\<not> supported g \<and> (e = NotImplementedError (gtype g) \<or> e = IndexError))"
proof (cases "None \<in> set (map sv (gate.inputs g))")
  case True
  with assms show ?thesis
    by (simp add: evaluate_gate_def del: set_map)
next
  case False
  show ?thesis
  proof (cases "gtype g = ''not''")
    case True
    with False assms have "gate.inputs g = []" and "e = IndexError"
      by (auto simp add: evaluate_gate_def Let_def simp del: set_map split: list.splits)
    with True show ?thesis
      by (simp add: supported_def)
  next
    case not: False
    with False assms have "\<not> supported g \<and> e = NotImplementedError (gtype g)"
      by (auto simp add: evaluate_gate_def supported_def Let_def simp del: set_map
          split: if_splits)
    then show ?thesis
      by simp
  qed
qed

lemma eval_level_error:
  assumes "eval_level h rs sv = Inl e"
  shows "\<exists>r \<in> set rs. \<exists>sv'. evaluate_gate (h r) sv' = Inl e"
  using assms
proof (induction rs arbitrary: sv)
  case Nil
  then show ?case by simp
next
  case (Cons r rs)
  show ?case
  proof (cases "evaluate_gate (h r) sv")
    case (Inl e')
    with Cons.prems have "evaluate_gate (h r) sv = Inl e"
      by simp
    then show ?thesis
      by auto
  next
    case (Inr v)
    with Cons.prems have "eval_level h rs (sv(output (h r) \<mapsto> v)) = Inl e"
      by simp
    from Cons.IH [OF this] show ?thesis
      by auto
  qed
qed

lemma eval_levels_error:
  assumes "eval_levels h d lvls sv = Inl e"
  shows "\<exists>r \<in> dict_refs d. \<exists>sv'. evaluate_gate (h r) sv' = Inl e"
  using assms
proof (induction lvls arbitrary: sv)
  case Nil
  then show ?case by simp
next
  case (Cons lvl lvls)
  let ?rs = "case map_of d (Some lvl) of None \<Rightarrow> [] | Some gs \<Rightarrow> gs"
  show ?case
  proof (cases "eval_level h ?rs sv")
    case (Inl e')
    with Cons.prems have "eval_level h ?rs sv = Inl e"
      by simp
    from eval_level_error [OF this] dict_refs_get [of d "Some lvl"] show ?thesis
      by blast
  next
    case (Inr sv1)
    with Cons.prems have "eval_levels h d lvls sv1 = Inl e"
      by simp
    then show ?thesis
      by (rule Cons.IH)
  qed
qed

lemma simulate_error_of_gate:
  assumes run: "simulate nl h input_values = Inl e"
    and some: "gates nl \<noteq> []"
    and leveled: "list_all (\<lambda>g. level (h g) \<noteq> None) (gates nl)"
  shows "\<exists>g \<in> set (gates nl). \<exists>sv. evaluate_gate (h g) sv = Inl e"
proof -
  let ?d = "group_by_level h (gates nl) []"
  have keys: "set (map fst ?d) = (\<lambda>g. level (h g)) ` set (gates nl)"
    using keys_group_by_level [of h "gates nl" "[]"] by simp
  with some have "map fst ?d \<noteq> []"
    by (metis empty_set image_is_empty set_empty)
  moreover have "None \<notin> set (map fst ?d)"
    unfolding keys using leveled by (force simp add: list_all_iff)
  ultimately obtain m where m: "py_max (map fst ?d) = Inr (Some m)"
    using py_max_Some by blast
  with run have "eval_levels h ?d [1..m] input_values = Inl e"
    by (simp add: simulate_def split: sum.splits)
  from eval_levels_error [OF this] show ?thesis
    by (simp add: dict_refs_group_by_level)
qed

lemma simulate_missing_read_input:
  assumes g: "g \<in> set (gates nl)" and l: "level (h g) = Some l" "1 \<le> l"
    and x: "x \<in> set (gate.inputs (h g))"
    and missing: "input_values x = None"
    and undriven: "list_all (\<lambda>d. output (h d) \<noteq> x) (gates nl)"
  shows "\<exists>e. simulate nl h input_values = Inl e"
proof (cases "simulate nl h input_values")
  case (Inl e)
  then show ?thesis by simp
next
  case (Inr res)
  let ?d = "group_by_level h (gates nl) []"
  from Inr obtain m sv' where m: "py_max (map fst ?d) = Inr (Some m)"
    and ev: "eval_levels h ?d [1..m] input_values = Inr sv'"
    by (auto simp add: simulate_def Let_def split: sum.splits option.splits)
  have "Some l \<in> set (map fst ?d)"
    using keys_group_by_level [of h "gates nl" "[]"] g l(1) by force
  with m have "l \<le> m"
    by (rule py_max_bound)
  with l(2) have "l \<in> set [1..m]"
    by simp
  moreover have "dict_get ?d (Some l) = filter (\<lambda>g. level (h g) = Some l) (gates nl)"
    by (subst dict_get_group_by_level) (simp add: dict_get_def)
  with g l(1) have "g \<in> set (dict_get ?d (Some l))"
    by simp
  ultimately have "set (gate.inputs (h g)) \<subseteq> dom sv'"
    using eval_levels_reads [OF ev] by blast
  with x have "x \<in> dom sv'"
    by auto
  moreover have "dict_refs ?d = set (gates nl)"
    by (simp add: dict_refs_group_by_level)
  with undriven have "sv' x = input_values x"
    by (intro eval_levels_untouched [OF ev]) (simp add: list_all_iff)
  ultimately show ?thesis
    using missing by auto
qed

text \<open>
  C3, as amended. \<^verbatim>\<open>simulate\<close> does not compare \<^verbatim>\<open>input_values\<close> with the declared
  primary inputs. Its result, output values or error, depends only on the values
  \<^verbatim>\<open>input_values\<close> gives to the names that are a declared output or an input of a gate
  of the netlist: two assignments that agree on these names give the same result. So a
  name that is not declared and that no gate reads is ignored, and so is the absence of
  a declared input that no gate reads. A name without a value that no gate drives and
  that a gate of a level from 1 on reads makes \<^verbatim>\<open>simulate\<close> fail: the result is an
  error and no output values. When every gate of the netlist has a level, the error is
  one that \<^verbatim>\<open>evaluate_gate\<close> raises for a gate of the netlist: the \<^verbatim>\<open>ValueError\<close> of a
  missing input value, or, for a gate that \<^verbatim>\<open>evaluate_gate\<close> has no branch for and
  that is evaluated earlier, \<^verbatim>\<open>NotImplementedError\<close> or \<^verbatim>\<open>IndexError\<close>. When a gate has
  no level, the error can come from \<^verbatim>\<open>max\<close> at line 45, before any gate is evaluated.
\<close>

theorem simulate_input_values_unchecked:
  "((\<forall>x. x \<in> set (outputs nl) \<or> (\<exists>g \<in> set (gates nl). x \<in> set (gate.inputs (h g))) \<longrightarrow>
        iv1 x = iv2 x) \<longrightarrow>
    simulate nl h iv1 = simulate nl h iv2) \<and>
   (g \<in> set (gates nl) \<and> level (h g) = Some l \<and> 1 \<le> l \<and> x \<in> set (gate.inputs (h g)) \<and>
    iv x = None \<and> list_all (\<lambda>d. output (h d) \<noteq> x) (gates nl) \<longrightarrow>
    (\<exists>e. simulate nl h iv = Inl e \<and>
       (list_all (\<lambda>d. level (h d) \<noteq> None) (gates nl) \<longrightarrow>
        (\<exists>d \<in> set (gates nl). e = ValueError_missing_input (name (h d)) \<or>
           (\<not> supported (h d) \<and> (e = NotImplementedError (gtype (h d)) \<or> e = IndexError))))))"
proof (intro conjI impI)
  assume "\<forall>x. x \<in> set (outputs nl) \<or> (\<exists>g \<in> set (gates nl). x \<in> set (gate.inputs (h g))) \<longrightarrow>
      iv1 x = iv2 x"
  then show "simulate nl h iv1 = simulate nl h iv2"
    by (intro simulate_agree) blast
next
  assume read: "g \<in> set (gates nl) \<and> level (h g) = Some l \<and> 1 \<le> l \<and>
      x \<in> set (gate.inputs (h g)) \<and> iv x = None \<and> list_all (\<lambda>d. output (h d) \<noteq> x) (gates nl)"
  then have "\<exists>e. simulate nl h iv = Inl e"
    by (intro simulate_missing_read_input [of g nl h l x]) simp_all
  then obtain e where e: "simulate nl h iv = Inl e" ..
  have "\<exists>d \<in> set (gates nl). e = ValueError_missing_input (name (h d)) \<or>
      (\<not> supported (h d) \<and> (e = NotImplementedError (gtype (h d)) \<or> e = IndexError))"
    if all: "list_all (\<lambda>d. level (h d) \<noteq> None) (gates nl)"
  proof -
    from read have "gates nl \<noteq> []"
      by auto
    from simulate_error_of_gate [OF e this all]
    obtain d sv where d: "d \<in> set (gates nl)" and "evaluate_gate (h d) sv = Inl e"
      by blast
    from evaluate_gate_error [OF this(2)] d show ?thesis
      by blast
  qed
  with e show "\<exists>e. simulate nl h iv = Inl e \<and>
      (list_all (\<lambda>d. level (h d) \<noteq> None) (gates nl) \<longrightarrow>
       (\<exists>d \<in> set (gates nl). e = ValueError_missing_input (name (h d)) \<or>
          (\<not> supported (h d) \<and> (e = NotImplementedError (gtype (h d)) \<or> e = IndexError))))"
    by blast
qed

text \<open>
  On c17: the assignment of the example and the same with the undeclared \<open>N99\<close> give the
  same result; without a value for \<open>N1\<close>, which the gate at address 0 reads,
  \<^verbatim>\<open>evaluate_gate\<close> raises for this gate. On \<^verbatim>\<open>input a; not g1 (y, a); not g2 (z, w);\<close>
  the leveler raises and leaves the first gate with level 1 and the second with none:
  with no value for \<open>a\<close>, \<^verbatim>\<open>simulate\<close> fails with the \<^verbatim>\<open>TypeError\<close> of \<^verbatim>\<open>max\<close>.
\<close>

theorem simulate_input_values_unchecked_witness:
  "(''N99'' \<notin> set (outputs c17_netlist) \<and>
    list_all (\<lambda>g. ''N99'' \<notin> set (gate.inputs (leveled c17_netlist c17_heap g))) (gates c17_netlist) \<and>
    simulate c17_netlist (leveled c17_netlist c17_heap) c17_inputs =
      simulate c17_netlist (leveled c17_netlist c17_heap) (c17_inputs(''N99'' \<mapsto> 1))) \<and>
   (0 \<in> set (gates c17_netlist) \<and> level (leveled c17_netlist c17_heap 0) = Some 1 \<and>
    (1::int) \<le> 1 \<and> ''N1'' \<in> set (gate.inputs (leveled c17_netlist c17_heap 0)) \<and>
    (c17_inputs(''N1'' := None)) ''N1'' = None \<and>
    list_all (\<lambda>d. output (leveled c17_netlist c17_heap d) \<noteq> ''N1'') (gates c17_netlist) \<and>
    list_all (\<lambda>d. level (leveled c17_netlist c17_heap d) \<noteq> None) (gates c17_netlist) \<and>
    name (leveled c17_netlist c17_heap 0) = Some ''NAND2_1'' \<and>
    simulate c17_netlist (leveled c17_netlist c17_heap) (c17_inputs(''N1'' := None)) =
      Inl (ValueError_missing_input (Some ''NAND2_1''))) \<and>
   (fst (parse_netlist_text ''input a; not g1 (y, a); not g2 (z, w);'') = partly_leveled_netlist \<and>
    map (snd (parse_netlist_text ''input a; not g1 (y, a); not g2 (z, w);''))
      (gates partly_leveled_netlist) = map partly_leveled_heap (gates partly_leveled_netlist) \<and>
    assign_levels partly_leveled_netlist partly_leveled_heap = Inl ValueError_cannot_resolve \<and>
    map (\<lambda>g. level (leveled partly_leveled_netlist partly_leveled_heap g))
      (gates partly_leveled_netlist) = [Some 1, None] \<and>
    0 \<in> set (gates partly_leveled_netlist) \<and>
    ''a'' \<in> set (gate.inputs (leveled partly_leveled_netlist partly_leveled_heap 0)) \<and>
    (Map.empty :: string \<rightharpoonup> int) ''a'' = None \<and>
    list_all (\<lambda>d. output (leveled partly_leveled_netlist partly_leveled_heap d) \<noteq> ''a'')
      (gates partly_leveled_netlist) \<and>
    simulate partly_leveled_netlist (leveled partly_leveled_netlist partly_leveled_heap) Map.empty =
      Inl TypeError)"
proof -
  let ?h = "leveled c17_netlist c17_heap"
  have unread: "''N99'' \<notin> set (outputs c17_netlist) \<and>
      list_all (\<lambda>g. ''N99'' \<notin> set (gate.inputs (?h g))) (gates c17_netlist)"
    by code_simp
  have "c17_inputs x = (c17_inputs(''N99'' \<mapsto> 1)) x"
    if "x \<in> set (outputs c17_netlist) \<or> (\<exists>g \<in> set (gates c17_netlist). x \<in> set (gate.inputs (?h g)))"
    for x
  proof -
    from that unread have "x \<noteq> ''N99''"
      by (auto simp add: list_all_iff)
    then show ?thesis
      by simp
  qed
  with simulate_input_values_unchecked [of c17_netlist ?h c17_inputs "c17_inputs(''N99'' \<mapsto> 1)"]
  have same: "simulate c17_netlist ?h c17_inputs = simulate c17_netlist ?h (c17_inputs(''N99'' \<mapsto> 1))"
    by blast
  have read: "0 \<in> set (gates c17_netlist) \<and> level (?h 0) = Some 1 \<and>
      ''N1'' \<in> set (gate.inputs (?h 0)) \<and>
      list_all (\<lambda>d. output (?h d) \<noteq> ''N1'') (gates c17_netlist) \<and>
      list_all (\<lambda>d. level (?h d) \<noteq> None) (gates c17_netlist) \<and>
      name (?h 0) = Some ''NAND2_1''"
    by code_simp
  have fails: "simulate c17_netlist ?h (c17_inputs(''N1'' := None)) =
      Inl (ValueError_missing_input (Some ''NAND2_1''))"
    by code_simp
  let ?p = "leveled partly_leveled_netlist partly_leveled_heap"
  have "isl (assign_levels partly_leveled_netlist partly_leveled_heap)"
    by code_simp
  then obtain e where "assign_levels partly_leveled_netlist partly_leveled_heap = Inl e"
    by (cases "assign_levels partly_leveled_netlist partly_leveled_heap") simp_all
  moreover from this have "e = ValueError_cannot_resolve"
    unfolding assign_levels_def by (rule assign_loop_error)
  ultimately have raised: "assign_levels partly_leveled_netlist partly_leveled_heap =
      Inl ValueError_cannot_resolve"
    by simp
  have partly: "map (\<lambda>g. level (?p g)) (gates partly_leveled_netlist) = [Some 1, None] \<and>
      0 \<in> set (gates partly_leveled_netlist) \<and>
      ''a'' \<in> set (gate.inputs (?p 0)) \<and>
      list_all (\<lambda>d. output (?p d) \<noteq> ''a'') (gates partly_leveled_netlist) \<and>
      simulate partly_leveled_netlist ?p Map.empty = Inl TypeError"
    by code_simp
  from unread same read fails raised partly partly_leveled_parsed show ?thesis
    by simp
qed

text \<open>
  C3 as stated fails twice: with the undeclared name \<open>N99\<close> added to its assignment, c17
  is simulated as before; with the declared input \<open>b\<close> left out, the netlist
  \<^verbatim>\<open>input a, b; output y, z; not g1 (y, a);\<close> is simulated without an error.
\<close>

theorem simulate_input_values_unchecked_counterexample:
  "(c17_inputs ''N99'' = None \<and> ''N99'' \<notin> set (netlist.inputs c17_netlist) \<and>
    simulate c17_netlist (leveled c17_netlist c17_heap) (c17_inputs(''N99'' \<mapsto> 1)) =
      Inr [(''N22'', Some 1), (''N23'', Some 0)]) \<and>
   (fst (parse_netlist_text ''input a, b; output y, z; not g1 (y, a);'') = undriven_netlist \<and>
    map (snd (parse_netlist_text ''input a, b; output y, z; not g1 (y, a);''))
      (gates undriven_netlist) = map undriven_heap (gates undriven_netlist) \<and>
    assign_levels undriven_netlist undriven_heap = Inr (leveled undriven_netlist undriven_heap) \<and>
    ''b'' \<in> set (netlist.inputs undriven_netlist) \<and>
    simulate undriven_netlist (leveled undriven_netlist undriven_heap) [''a'' \<mapsto> 1] =
      Inr [(''y'', Some 0), (''z'', None)])"
proof -
  have "c17_inputs ''N99'' = None \<and> ''N99'' \<notin> set (netlist.inputs c17_netlist) \<and>
      simulate c17_netlist (leveled c17_netlist c17_heap) (c17_inputs(''N99'' \<mapsto> 1)) =
        Inr [(''N22'', Some 1), (''N23'', Some 0)]"
    by code_simp
  moreover have "''b'' \<in> set (netlist.inputs undriven_netlist) \<and>
      simulate undriven_netlist (leveled undriven_netlist undriven_heap) [''a'' \<mapsto> 1] =
        Inr [(''y'', Some 0), (''z'', None)]"
    by code_simp
  ultimately show ?thesis
    using undriven_parsed undriven_run by (simp only: simp_thms)
qed










text \<open>
  C4, as amended. The parser makes the netlist c17 of the example text, leveling it
  succeeds, and simulating it with N1 = 1, N2 = 0, N3 = 1, N6 = 0, N7 = 0 yields N22 = 1
  and N23 = 0.
\<close>

theorem c17_simulation:
  "fst (parse_netlist_text c17_example) = c17_netlist \<and>
   map (snd (parse_netlist_text c17_example)) (gates c17_netlist) =
     map c17_heap (gates c17_netlist) \<and>
   assign_levels c17_netlist c17_heap = Inr (leveled c17_netlist c17_heap) \<and>
   simulate c17_netlist (leveled c17_netlist c17_heap) c17_inputs =
     Inr [(''N22'', Some 1), (''N23'', Some 0)]"
proof -
  have "simulate c17_netlist (leveled c17_netlist c17_heap) c17_inputs =
      Inr [(''N22'', Some 1), (''N23'', Some 0)]"
    by code_simp
  with c17_parsed c17_run show ?thesis
    by (simp only: simp_thms)
qed

text \<open>C4 as stated: the result is not N22 = 0, N23 = 1.\<close>

theorem c17_simulation_counterexample:
  "simulate c17_netlist (leveled c17_netlist c17_heap) c17_inputs \<noteq>
     Inr [(''N22'', Some 0), (''N23'', Some 1)]"
  by code_simp

section \<open>The parser: the gate sequence\<close>

lemma append_gate_objects:
  assumes "consecutive st"
  shows "gate_objects (append_gate t nm ids st) =
      gate_objects st @ gate_objects (append_gate t nm ids no_objects)"
    and "consecutive (append_gate t nm ids st)"
proof -
  obtain nl h where st: "st = (nl, h)"
    by (cases st)
  from assms st have g: "gates nl = [0..<length (gates nl)]"
    by (simp add: consecutive_def)
  have old: "map (h(length (gates nl) := x)) (gates nl) = map h (gates nl)" for x
    by (subst (1 2) g) simp
  show "gate_objects (append_gate t nm ids st) =
      gate_objects st @ gate_objects (append_gate t nm ids no_objects)"
    by (cases ids) (simp_all add: st append_gate_def gate_objects_def no_objects_def old)
  show "consecutive (append_gate t nm ids st)"
  proof (cases ids)
    case Nil
    with assms show ?thesis
      by (simp add: append_gate_def)
  next
    case (Cons out ins)
    have "gates nl @ [length (gates nl)] = [0..<Suc (length (gates nl))]"
      by (subst (1) g) simp
    with Cons show ?thesis
      by (simp add: st append_gate_def consecutive_def)
  qed
qed

lemma parse_stmt_objects:
  assumes "consecutive st"
  shows "gate_objects (parse_stmt stmt st) = gate_objects st @ stmt_gates stmt"
    and "consecutive (parse_stmt stmt st)"
proof -
  obtain nl h where st: "st = (nl, h)"
    by (cases st)
  have empty: "gate_objects no_objects = []"
    by (simp add: gate_objects_def no_objects_def)
  have none: "consecutive no_objects"
    by (simp add: consecutive_def no_objects_def)
  show "gate_objects (parse_stmt stmt st) = gate_objects st @ stmt_gates stmt"
    unfolding stmt_gates_def parse_stmt_def
    using append_gate_objects(1) [OF assms]
    by (auto simp add: empty st gate_objects_def no_objects_def Let_def split: option.splits)
  show "consecutive (parse_stmt stmt st)"
    unfolding parse_stmt_def
    using append_gate_objects(2) [OF assms] assms
    by (auto simp add: st consecutive_def Let_def split: option.splits)
qed

lemma parse_stmts_objects:
  assumes "consecutive st"
  shows "gate_objects (parse_stmts stmts st) = gate_objects st @ concat (map stmt_gates stmts)"
  using assms
proof (induction stmts arbitrary: st)
  case Nil
  then show ?case by simp
next
  case (Cons stmt stmts)
  from parse_stmt_objects [OF Cons.prems, of stmt] Cons.IH [of "parse_stmt stmt st"]
  show ?case by simp
qed

lemma parse_gate_sequence:
  "gate_objects (parse_netlist_text text) =
     concat (map stmt_gates (statements (remove_comments text)))"
proof -
  have "consecutive no_objects"
    by (simp add: consecutive_def no_objects_def)
  from parse_stmts_objects [OF this, of "statements (remove_comments text)"]
  show ?thesis
    by (auto simp add: parse_netlist_text_def gate_objects_def no_objects_def split: prod.splits)
qed

text \<open>
  C2, as amended. \<^verbatim>\<open>parse_netlist_text\<close> raises no error and checks no output name:
  when two statements of a text each create a gate and the two gates have the same
  output signal, the gate sequence of the netlist holds both, in the order of the
  statements.
\<close>

theorem duplicate_driver_kept:
  assumes "statements (remove_comments text) = pre @ s1 # mid @ s2 # post"
    and "stmt_gates s1 = [g1]" and "stmt_gates s2 = [g2]"
    and "output g1 = output g2"
  shows "gate_objects (parse_netlist_text text) =
     concat (map stmt_gates pre) @ g1 # concat (map stmt_gates mid) @ g2 #
     concat (map stmt_gates post)"
  using assms(1,2,3) by (simp add: parse_gate_sequence)

text \<open>Two \<open>nand\<close> gates driving \<open>x\<close>.\<close>

theorem duplicate_driver_kept_witness:
  "statements (remove_comments ''nand g1 (x, a); nand g2 (x, b);'') =
     [] @ ''nand g1 (x, a)'' # [] @ ''nand g2 (x, b)'' # [] \<and>
   stmt_gates ''nand g1 (x, a)'' = [Gate ''nand'' (Some ''g1'') ''x'' [''a'']] \<and>
   stmt_gates ''nand g2 (x, b)'' = [Gate ''nand'' (Some ''g2'') ''x'' [''b'']] \<and>
   output (Gate ''nand'' (Some ''g1'') ''x'' [''a'']) =
     output (Gate ''nand'' (Some ''g2'') ''x'' [''b'']) \<and>
   gate_objects (parse_netlist_text ''nand g1 (x, a); nand g2 (x, b);'') =
     [Gate ''nand'' (Some ''g1'') ''x'' [''a''], Gate ''nand'' (Some ''g2'') ''x'' [''b'']]"
proof -
  have stmts: "statements (remove_comments ''nand g1 (x, a); nand g2 (x, b);'') =
      [] @ ''nand g1 (x, a)'' # [] @ ''nand g2 (x, b)'' # []"
    and g1: "stmt_gates ''nand g1 (x, a)'' = [Gate ''nand'' (Some ''g1'') ''x'' [''a'']]"
    and g2: "stmt_gates ''nand g2 (x, b)'' = [Gate ''nand'' (Some ''g2'') ''x'' [''b'']]"
    and same: "output (Gate ''nand'' (Some ''g1'') ''x'' [''a'']) =
      output (Gate ''nand'' (Some ''g2'') ''x'' [''b''])"
    by code_simp+
  from duplicate_driver_kept [OF stmts g1 g2 same] show ?thesis
    using stmts g1 g2 same by simp
qed

text \<open>
  C2 as stated fails on \<^verbatim>\<open>nand g1 (x, a); nand g2 (x, b);\<close>: the parser returns both
  gates.
\<close>

theorem duplicate_driver_kept_counterexample:
  "gate_objects (parse_netlist_text ''nand g1 (x, a); nand g2 (x, b);'') =
     [Gate ''nand'' (Some ''g1'') ''x'' [''a''], Gate ''nand'' (Some ''g2'') ''x'' [''b'']]"
  by code_simp

text \<open>
  C6. A statement that the regular expression of a named gate matches with a port list
  holding no identifier, or that only the regular expression of an anonymous gate
  matches, again with no identifier in the port list, creates no gate: the gate
  sequence parsed from any text is the one parsed from its other statements.
\<close>

theorem empty_port_list_dropped:
  assumes "(\<exists>t n p. match_named stmt = Some (t, n, p) \<and> find_identifiers p = []) \<or>
      (match_named stmt = None \<and> (\<exists>t p. match_anon stmt = Some (t, p) \<and> find_identifiers p = []))"
  shows "stmt_gates stmt = [] \<and>
     gate_objects (parse_netlist_text text) =
       concat (map stmt_gates (filter (\<lambda>s. s \<noteq> stmt) (statements (remove_comments text))))"
proof -
  have empty: "gate_objects no_objects = []"
    by (simp add: gate_objects_def no_objects_def)
  from assms have none: "stmt_gates stmt = []"
    unfolding stmt_gates_def parse_stmt_def
    by (auto simp add: empty append_gate_def gate_objects_def no_objects_def Let_def
        split: option.splits)
  have "concat (map stmt_gates stmts) = concat (map stmt_gates (filter (\<lambda>s. s \<noteq> stmt) stmts))"
    for stmts
    by (induction stmts) (simp_all add: none)
  with none show ?thesis
    by (simp add: parse_gate_sequence)
qed

text \<open>The statement \<^verbatim>\<open>nand G1 ()\<close> in front of a gate.\<close>

theorem empty_port_list_dropped_witness:
  "match_named ''nand G1 ()'' = Some (''nand'', ''G1'', []) \<and>
   find_identifiers [] = [] \<and>
   stmt_gates ''nand G1 ()'' = [] \<and>
   statements (remove_comments ''nand G1 (); nand g2 (x, a);'') =
     [''nand G1 ()'', ''nand g2 (x, a)''] \<and>
   gate_objects (parse_netlist_text ''nand G1 (); nand g2 (x, a);'') =
     [Gate ''nand'' (Some ''g2'') ''x'' [''a'']]"
proof -
  have m: "match_named ''nand G1 ()'' = Some (''nand'', ''G1'', [])"
    and stmts: "statements (remove_comments ''nand G1 (); nand g2 (x, a);'') =
      [''nand G1 ()'', ''nand g2 (x, a)'']"
    and other: "stmt_gates ''nand g2 (x, a)'' = [Gate ''nand'' (Some ''g2'') ''x'' [''a'']]"
    by code_simp+
  have "(\<exists>t n p. match_named ''nand G1 ()'' = Some (t, n, p) \<and> find_identifiers p = []) \<or>
      (match_named ''nand G1 ()'' = None \<and>
       (\<exists>t p. match_anon ''nand G1 ()'' = Some (t, p) \<and> find_identifiers p = []))"
    using m by simp
  from empty_port_list_dropped [OF this, of "''nand G1 (); nand g2 (x, a);''"]
  show ?thesis
    using m stmts other by simp
qed

end
